theory Spec2Isabelle
  imports Main "HOL-Library.Word" "HOL-Library.AList"
begin

section \<open>Errors\<close>

text \<open>
  The Python exceptions the modelled code can raise. \<open>ValueError\<close> is raised
  explicitly by \<open>BIGArchive.load\<close> (bad magic) and by \<open>list.remove\<close>;
  \<open>StructError\<close> is \<open>struct.error\<close> (wrong length for \<open>unpack\<close>, value out of
  range for \<open>pack\<close>); the others are the implicit failures of indexing an empty list,
  calling a method a value does not have, iterating or hashing a value that cannot be,
  encoding a non-ASCII character and opening a file.
\<close>

datatype error =
    ValueError | StructError | IOError | UnicodeEncodeError
  | TypeError | IndexError | AttributeError

definition bind_e :: "error + 'a \<Rightarrow> ('a \<Rightarrow> error + 'b) \<Rightarrow> error + 'b" where
  "bind_e r f = (case r of Inl e \<Rightarrow> Inl e | Inr v \<Rightarrow> f v)"

section \<open>The container codec (big_ui.py)\<close>

type_synonym byte = "8 word"

subsection \<open>FileEntry and BIGArchive\<close>

text \<open>
  \<open>FileEntry\<close> objects are mutable and compared by identity (the class defines no
  \<open>__eq__\<close>), so each carries its identity \<open>ident\<close>; \<open>next_ident\<close> of the archive
  is the allocator: an identity is never handed out twice. Offsets and sizes are
  Python integers that are never negative here (results of an unsigned \<open>unpack\<close>,
  of \<open>len\<close>, the constant 0 and sums of these), hence \<open>nat\<close>. \<open>data\<close> is
  \<open>None\<close> between the construction of an entry and the payload pass of \<open>load\<close>.
  A path is a Python \<open>str\<close>; every character of a loaded path is ASCII.
\<close>

record FileEntry =
  ident :: nat
  offset :: nat
  size_e :: nat
  path :: string
  data :: "byte list option"
  modified :: bool

record BIGArchive =
  header :: "byte list option"
  file_size :: nat
  entries :: "FileEntry list"
  original_data :: "byte list option"
  next_ident :: nat

definition BIGArchive_init :: BIGArchive where
  "BIGArchive_init =
     \<lparr>header = None, file_size = 0, entries = [], original_data = None, next_ident = 0\<rparr>"

subsection \<open>Integers and strings on the wire\<close>

definition BIG :: "byte list" where "BIG = [0x42, 0x49, 0x47]"
definition BIG5 :: "byte list" where "BIG5 = [0x42, 0x49, 0x47, 0x35]"
definition BIG4 :: "byte list" where "BIG4 = [0x42, 0x49, 0x47, 0x34]"
definition BIGF :: "byte list" where "BIGF = [0x42, 0x49, 0x47, 0x46]"

text \<open>\<open>struct.unpack('>I', data)[0]\<close> and \<open>struct.unpack('<I', data)[0]\<close>:
  \<open>struct.error\<close> unless \<open>data\<close> has exactly 4 bytes.\<close>

definition read_uint32_be :: "byte list \<Rightarrow> error + nat" where
  "read_uint32_be d =
     (if length d \<noteq> 4 then Inl StructError
      else Inr (unat (d ! 0) * 2 ^ 24 + unat (d ! 1) * 2 ^ 16 + unat (d ! 2) * 2 ^ 8 + unat (d ! 3)))"

definition read_uint32_le :: "byte list \<Rightarrow> error + nat" where
  "read_uint32_le d =
     (if length d \<noteq> 4 then Inl StructError
      else Inr (unat (d ! 0) + unat (d ! 1) * 2 ^ 8 + unat (d ! 2) * 2 ^ 16 + unat (d ! 3) * 2 ^ 24))"

text \<open>\<open>struct.pack('>I', value)\<close> and \<open>struct.pack('<I', value)\<close>:
  \<open>struct.error\<close> when the value does not fit 32 bits.\<close>

definition write_uint32_be :: "nat \<Rightarrow> error + byte list" where
  "write_uint32_be v =
     (if v < 2 ^ 32
      then Inr [of_nat (v div 2 ^ 24), of_nat (v div 2 ^ 16), of_nat (v div 2 ^ 8), of_nat v]
      else Inl StructError)"

definition write_uint32_le :: "nat \<Rightarrow> error + byte list" where
  "write_uint32_le v =
     (if v < 2 ^ 32
      then Inr [of_nat v, of_nat (v div 2 ^ 8), of_nat (v div 2 ^ 16), of_nat (v div 2 ^ 24)]
      else Inl StructError)"

text \<open>\<open>io.BytesIO\<close>: \<open>read(n)\<close> at position \<open>p\<close> returns at most \<open>n\<close> bytes and
  advances by what it returned; a position past the end reads nothing.\<close>

definition bio_read :: "byte list \<Rightarrow> nat \<Rightarrow> nat \<Rightarrow> byte list \<times> nat" where
  "bio_read d p n = (take n (drop p d), p + length (take n (drop p d)))"

text \<open>The loop of \<open>read_string\<close>, on the bytes from the current position on: the
  bytes before the first NUL (or all of them), and how many bytes were consumed
  (the NUL included when there is one).\<close>

fun read_string_loop :: "byte list \<Rightarrow> byte list \<times> nat" where
  "read_string_loop [] = ([], 0)"
| "read_string_loop (c # cs) =
     (if c = 0 then ([], 1)
      else (case read_string_loop cs of (name, k) \<Rightarrow> (c # name, Suc k)))"

text \<open>\<open>bytes.decode('ascii', errors='ignore')\<close>: bytes above 127 are dropped.\<close>

definition decode_ascii_ignore :: "byte list \<Rightarrow> string" where
  "decode_ascii_ignore bs = map (\<lambda>b. char_of (unat b)) (filter (\<lambda>b. unat b < 128) bs)"

definition read_string :: "byte list \<Rightarrow> nat \<Rightarrow> string \<times> nat" where
  "read_string d p =
     (case read_string_loop (drop p d) of (name, k) \<Rightarrow> (decode_ascii_ignore name, p + k))"

text \<open>\<open>string.encode('ascii') + b'\0'\<close>: \<open>UnicodeEncodeError\<close> on a character
  above 127.\<close>

definition write_string :: "string \<Rightarrow> error + byte list" where
  "write_string s =
     (if list_all (\<lambda>c. (of_char c :: nat) < 128) s
      then Inr (map (\<lambda>c. of_nat (of_char c)) s @ [0])
      else Inl UnicodeEncodeError)"

subsection \<open>load\<close>

text \<open>
  One metadata record, read at position \<open>p\<close>. The source has the loop twice, for
  BIG5 and for the other magics; the bodies differ only in the \<open>file.seek(1, 1)\<close> that
  BIG5 does first, which is the flag \<open>big5\<close> here. Returns offset, size, path and
  the new position.
\<close>

definition read_record :: "bool \<Rightarrow> byte list \<Rightarrow> nat \<Rightarrow> error + (nat \<times> nat \<times> string \<times> nat)" where
  "read_record big5 d p =
     (let p0 = (if big5 then p + 1 else p) in
      case bio_read d p0 4 of (b1, p1) \<Rightarrow>
        bind_e (read_uint32_be b1) (\<lambda>off.
          case bio_read d p1 4 of (b2, p2) \<Rightarrow>
            bind_e (read_uint32_be b2) (\<lambda>sz.
              case read_string d p2 of (nm, p3) \<Rightarrow> Inr (off, sz, nm, p3))))"

text \<open>\<open>for i in range(file_count)\<close>: the entries appended so far stay in
  \<open>self.entries\<close> when a record fails to read.\<close>

fun read_entries ::
  "bool \<Rightarrow> byte list \<Rightarrow> nat \<Rightarrow> nat \<Rightarrow> BIGArchive \<Rightarrow> BIGArchive \<times> (error + unit)" where
  "read_entries big5 d 0 p a = (a, Inr ())"
| "read_entries big5 d (Suc n) p a =
     (case read_record big5 d p of
        Inl e \<Rightarrow> (a, Inl e)
      | Inr (off, sz, nm, p') \<Rightarrow>
          read_entries big5 d n p'
            (a\<lparr>entries := entries a @
                  [\<lparr>ident = next_ident a, offset = off, size_e = sz, path = nm,
                    data = None, modified = False\<rparr>],
               next_ident := Suc (next_ident a)\<rparr>))"

text \<open>\<open>file.seek(entry.offset); entry.data = file.read(entry.size)\<close>\<close>

definition load_data :: "byte list \<Rightarrow> FileEntry \<Rightarrow> FileEntry" where
  "load_data d e = e\<lparr>data := Some (take (size_e e) (drop (offset e) d))\<rparr>"

text \<open>
  \<open>load\<close> on the bytes of the file (\<open>None\<close>: the file cannot be opened or read).
  The result is the archive object as the call leaves it, and \<open>Inr ()\<close> or the
  exception raised.
\<close>

definition load :: "BIGArchive \<Rightarrow> byte list option \<Rightarrow> BIGArchive \<times> (error + unit)" where
  "load self f =
     (case f of
        None \<Rightarrow> (self, Inl IOError)
      | Some d \<Rightarrow>
         (let a1 = self\<lparr>original_data := Some d, header := Some (take 4 d)\<rparr> in
          if take 3 (take 4 d) \<noteq> BIG then (a1, Inl ValueError)
          else case read_uint32_le (fst (bio_read d 4 4)) of
            Inl e \<Rightarrow> (a1, Inl e)
          | Inr fs \<Rightarrow>
             (let a2 = a1\<lparr>file_size := fs\<rparr>;
                  p8 = snd (bio_read d 4 4) in
              case read_uint32_be (fst (bio_read d p8 4)) of
                Inl e \<Rightarrow> (a2, Inl e)
              | Inr file_count \<Rightarrow>
                 (let p12 = snd (bio_read d p8 4);
                      big5 = (take 4 d = BIG5);
                      p = (if big5 then p12 + 3 else p12 + 4) in
                  case read_entries big5 d file_count p a2 of
                    (a3, Inl e) \<Rightarrow> (a3, Inl e)
                  | (a3, Inr u) \<Rightarrow>
                      (a3\<lparr>entries := map (load_data d) (entries a3)\<rparr>, Inr ())))))"

subsection \<open>save\<close>

text \<open>The size of the metadata records, added to the start cursor.\<close>

fun metadata_size :: "bool \<Rightarrow> nat \<Rightarrow> FileEntry list \<Rightarrow> nat" where
  "metadata_size big5 cur [] = cur"
| "metadata_size big5 cur (e # es) =
     metadata_size big5 ((if big5 then cur + 1 else cur) + 8 + (length (path e) + 1)) es"

text \<open>\<open>for entry in self.entries: entry.offset = current_offset;
  current_offset += entry.size\<close>; returns the entries and the final cursor.\<close>

fun update_offsets :: "nat \<Rightarrow> FileEntry list \<Rightarrow> FileEntry list \<times> nat" where
  "update_offsets cur [] = ([], cur)"
| "update_offsets cur (e # es) =
     (case update_offsets (cur + size_e e) es of
        (es', fin) \<Rightarrow> (e\<lparr>offset := cur\<rparr> # es', fin))"

fun write_metadata :: "bool \<Rightarrow> FileEntry list \<Rightarrow> error + byte list" where
  "write_metadata big5 [] = Inr []"
| "write_metadata big5 (e # es) =
     bind_e (write_uint32_be (offset e)) (\<lambda>bo.
     bind_e (write_uint32_be (size_e e)) (\<lambda>bs.
     bind_e (write_string (path e)) (\<lambda>bp.
     bind_e (write_metadata big5 es) (\<lambda>rest.
       Inr ((if big5 then [0] else []) @ bo @ bs @ bp @ rest)))))"

fun write_data :: "FileEntry list \<Rightarrow> error + byte list" where
  "write_data [] = Inr []"
| "write_data (e # es) =
     (case data e of
        None \<Rightarrow> Inl TypeError
      | Some d \<Rightarrow> bind_e (write_data es) (\<lambda>rest. Inr (d @ rest)))"

text \<open>
  \<open>save\<close>: \<open>writable\<close> says whether \<open>open(filepath, 'wb')\<close> succeeds. The result
  is the archive as the call leaves it, and the bytes written or the exception.
  The offsets are assigned before the file is opened; \<open>layout\<close> is that first
  part of \<open>save\<close>: the entries with their new offsets, and \<open>total_size\<close>.
\<close>

definition layout :: "BIGArchive \<Rightarrow> FileEntry list \<times> nat" where
  "layout self =
     (let big5 = (header self = Some BIG5) in
      update_offsets (metadata_size big5 (if big5 then 12 + 3 else 12 + 4) (entries self))
        (entries self))"

definition save :: "BIGArchive \<Rightarrow> bool \<Rightarrow> BIGArchive \<times> (error + byte list)" where
  "save self writable =
     (case layout self of (es, total_size) \<Rightarrow>
       (let a = self\<lparr>entries := es\<rparr>; big5 = (header self = Some BIG5) in
        (a,
         if \<not> writable then Inl IOError
         else case header a of
           None \<Rightarrow> Inl TypeError
         | Some h \<Rightarrow>
            bind_e (write_uint32_le total_size) (\<lambda>bt.
            bind_e (write_uint32_be (length es)) (\<lambda>bc.
            bind_e (write_metadata big5 es) (\<lambda>bm.
            bind_e (write_data es) (\<lambda>bd.
              Inr (h @ bt @ bc @ (if big5 then [0, 0, 0] else [0, 0, 0, 0]) @ bm @ bd))))))))"

subsection \<open>Well-formed archives\<close>

text \<open>The characters \<open>read_string\<close> can return: ASCII and not NUL.\<close>

definition path_ok :: "string \<Rightarrow> bool" where
  "path_ok s = list_all (\<lambda>c. 0 < (of_char c :: nat) \<and> (of_char c :: nat) < 128) s"

text \<open>
  A well-formed archive: \<open>load\<close> accepts it, every payload region that the
  metadata names lies inside the file, and the archive as \<open>save\<close> lays it out
  again still fits the 32-bit size field of the header.
\<close>

definition well_formed :: "byte list \<Rightarrow> bool" where
  "well_formed B =
     (case load BIGArchive_init (Some B) of
        (a, r) \<Rightarrow> r = Inr ()
          \<and> list_all (\<lambda>e. offset e + size_e e \<le> length B) (entries a)
          \<and> snd (layout a) < 2 ^ 32)"

text \<open>The payload regions of an entry list lie in a file of \<open>n\<close> bytes and do not
  overlap (in list order).\<close>

definition regions_consistent :: "nat \<Rightarrow> FileEntry list \<Rightarrow> bool" where
  "regions_consistent n es =
     (list_all (\<lambda>e. offset e + size_e e \<le> n) es
      \<and> (\<forall>j < length es. \<forall>i < j. offset (es ! i) + size_e (es ! i) \<le> offset (es ! j)))"

subsection \<open>add_file, remove_file, update_file\<close>

text \<open>\<open>add_file\<close> returns the new entry as well.\<close>

definition add_file :: "BIGArchive \<Rightarrow> string \<Rightarrow> byte list \<Rightarrow> BIGArchive \<times> FileEntry" where
  "add_file self p d =
     (let entry = \<lparr>ident = next_ident self, offset = 0, size_e = length d, path = p,
                   data = Some d, modified = True\<rparr>
      in (self\<lparr>entries := entries self @ [entry], next_ident := Suc (next_ident self)\<rparr>, entry))"

text \<open>\<open>list.remove(x)\<close> deletes the first element equal to \<open>x\<close> (here: the same
  object) and raises \<open>ValueError\<close> when there is none. The argument is the
  identity of the entry object.\<close>

fun list_remove :: "nat \<Rightarrow> FileEntry list \<Rightarrow> FileEntry list" where
  "list_remove r [] = []"
| "list_remove r (e # es) = (if ident e = r then es else e # list_remove r es)"

definition remove_file :: "BIGArchive \<Rightarrow> nat \<Rightarrow> BIGArchive \<times> (error + unit)" where
  "remove_file self r =
     (if r \<in> ident ` set (entries self)
      then (self\<lparr>entries := list_remove r (entries self)\<rparr>, Inr ())
      else (self, Inl ValueError))"

text \<open>\<open>update_file\<close> assigns three fields of the entry object; the archive sees
  the change where the object is in its list.\<close>

definition update_file :: "BIGArchive \<Rightarrow> nat \<Rightarrow> byte list \<Rightarrow> BIGArchive" where
  "update_file self r d =
     self\<lparr>entries :=
       map (\<lambda>e. if ident e = r then e\<lparr>data := Some d, size_e := length d, modified := True\<rparr> else e)
         (entries self)\<rparr>"

text \<open>Every entry object is in the list once, and the allocator is ahead of all of
  them: true of a fresh archive and kept by load, save and the three edits.\<close>

definition archive_inv :: "BIGArchive \<Rightarrow> bool" where
  "archive_inv a \<longleftrightarrow>
     distinct (map ident (entries a)) \<and> (\<forall>e \<in> set (entries a). ident e < next_ident a)"

section \<open>Python strings\<close>

text \<open>
  The methods of \<open>str\<close> that the parser uses, on \<open>string\<close>: a character stands for
  a code point below 256. \<open>py_isspace\<close> is \<open>str.isspace\<close> on one such character,
  the whitespace that \<open>strip()\<close> and \<open>split()\<close> remove.
\<close>

definition py_isspace :: "char \<Rightarrow> bool" where
  "py_isspace c \<longleftrightarrow> (of_char c :: nat) \<in> {9, 10, 11, 12, 13, 28, 29, 30, 31, 32, 133, 160}"

definition strip :: "string \<Rightarrow> string" where
  "strip s = rev (dropWhile py_isspace (rev (dropWhile py_isspace s)))"

definition startswith :: "string \<Rightarrow> string \<Rightarrow> bool" where
  "startswith s p \<longleftrightarrow> take (length p) s = p"

text \<open>\<open>contains s sub\<close> is \<open>sub in s\<close>.\<close>

fun contains :: "string \<Rightarrow> string \<Rightarrow> bool" where
  "contains [] sub \<longleftrightarrow> sub = []"
| "contains (c # cs) sub \<longleftrightarrow> startswith (c # cs) sub \<or> contains cs sub"

text \<open>\<open>s.split(sep)\<close> for a one-character separator: never empty.\<close>

fun split_on :: "char \<Rightarrow> string \<Rightarrow> string list" where
  "split_on sep [] = [[]]"
| "split_on sep (c # cs) =
     (if c = sep then [] # split_on sep cs
      else (case split_on sep cs of [] \<Rightarrow> [[c]] | w # ws \<Rightarrow> (c # w) # ws))"

text \<open>\<open>s.split(sep, 1)\<close>: split at the first separator only.\<close>

definition split_on1 :: "char \<Rightarrow> string \<Rightarrow> string list" where
  "split_on1 sep s =
     (if sep \<in> set s
      then [takeWhile (\<lambda>c. c \<noteq> sep) s, tl (dropWhile (\<lambda>c. c \<noteq> sep) s)]
      else [s])"

text \<open>\<open>s.split()\<close>: the maximal runs of non-whitespace; \<open>cur\<close> is the run being read.\<close>

fun split_ws_from :: "string \<Rightarrow> string \<Rightarrow> string list" where
  "split_ws_from cur [] = (if cur = [] then [] else [cur])"
| "split_ws_from cur (c # cs) =
     (if py_isspace c
      then (if cur = [] then split_ws_from [] cs else cur # split_ws_from [] cs)
      else split_ws_from (cur @ [c]) cs)"

definition split_ws :: "string \<Rightarrow> string list" where
  "split_ws s = split_ws_from [] s"

text \<open>\<open>s.split(None, 1)\<close>: the first run and, when anything but whitespace follows
  it, the rest of the string from the next run on (trailing whitespace kept).\<close>

definition split_ws1 :: "string \<Rightarrow> string list" where
  "split_ws1 s =
     (let s1 = dropWhile py_isspace s in
      if s1 = [] then []
      else (let tok = takeWhile (\<lambda>c. \<not> py_isspace c) s1;
                rest = dropWhile py_isspace (dropWhile (\<lambda>c. \<not> py_isspace c) s1)
            in if rest = [] then [tok] else [tok, rest]))"

section \<open>The config object parser (enhanced_integration.py, SmartINIParser)\<close>

subsection \<open>Definitions and sections\<close>

text \<open>
  The parser builds dictionaries. A dictionary is an association list in insertion
  order: \<open>AList.update\<close> is \<open>d[k] = v\<close> (an existing key keeps its place),
  \<open>map_of\<close> is the lookup.

  A property of a definition is a \<open>str\<close> or, for the multi-valued keys, a list of
  \<open>str\<close>. A property of a section is \<open>None\<close>, a \<open>str\<close> or a list whose elements
  are \<open>str\<close> (\<open>_raw\<close>, \<open>_lines\<close>, \<open>armors\<close>, \<open>prerequisites\<close>) or the
  dictionaries \<open>{'slot': s, 'weapon': w}\<close> of \<open>weapons\<close>.

  A definition is the dictionary with the keys \<open>type\<close>, \<open>name\<close>, \<open>source_file\<close>,
  \<open>properties\<close>, \<open>sections\<close>, \<open>line_number\<close>; a section the dictionary with the
  keys \<open>type\<close>, \<open>properties\<close> and, for a module section, \<open>tag\<close> (and
  \<open>subsections\<close>, which stays empty). The field names carry a prefix where two
  records would share them.
\<close>

datatype propval = Str string | StrList "string list"

datatype elem = EStr string | EWeapon "string \<times> string"

datatype secval = SNone | SStr string | SList "elem list"

record ini_section =
  s_type :: string
  s_tag :: "string option"
  s_properties :: "(string \<times> secval) list"

record ini_object =
  d_type :: string
  d_name :: string
  source_file :: string
  d_properties :: "(string \<times> propval) list"
  d_sections :: "(string \<times> ini_section) list"
  line_number :: nat

subsection \<open>_is_object_definition, _parse_object_definition\<close>

definition object_keywords :: "string list" where
  "object_keywords = [''Object'', ''Weapon'', ''Armor'', ''Science'', ''Upgrade'',
               ''Locomotor'', ''CommandSet'', ''CommandButton'', ''FXList'',
               ''ParticleSystem'', ''ObjectCreationList'', ''SpecialPower'']"

definition is_object_definition :: "string \<Rightarrow> bool" where
  "is_object_definition line = list_ex (\<lambda>kw. startswith line (kw @ '' '')) object_keywords"

text \<open>\<open>None\<close> stands for the pair \<open>(None, None)\<close>.\<close>

definition parse_object_definition :: "string \<Rightarrow> (string \<times> string) option" where
  "parse_object_definition line =
     (let parts = split_ws1 line in
      if length parts \<ge> 2 then Some (parts ! 0, parts ! 1) else None)"

subsection \<open>_parse_property\<close>

text \<open>
  Only ever called with \<open>section = None\<close>: the target is the definition. On a line
  without \<open>=\<close> the multi-valued keys append to a list; \<open>append\<close> on a property that
  an earlier \<open>key = value\<close> line stored as a \<open>str\<close> is an \<open>AttributeError\<close>.
\<close>

definition parse_property :: "string \<Rightarrow> ini_object \<Rightarrow> error + ini_object" where
  "parse_property line obj =
     (if CHR ''='' \<in> set line then
        (let parts = split_on1 CHR ''='' line;
             key = strip (parts ! 0);
             val = (if length parts > 1 then strip (parts ! 1) else [])
         in Inr (obj\<lparr>d_properties := AList.update key (Str val) (d_properties obj)\<rparr>))
      else
        (let parts = split_ws1 line in
         if parts = [] then Inr obj
         else
          (let key = parts ! 0;
               val = (if length parts > 1 then parts ! 1 else [])
           in if key \<in> {''ShowSubObject'', ''HideSubObject''} then
                (case map_of (d_properties obj) key of
                   None \<Rightarrow>
                     Inr (obj\<lparr>d_properties := AList.update key (StrList [val]) (d_properties obj)\<rparr>)
                 | Some (StrList vs) \<Rightarrow>
                     Inr (obj\<lparr>d_properties := AList.update key (StrList (vs @ [val])) (d_properties obj)\<rparr>)
                 | Some (Str v) \<Rightarrow> Inl AttributeError)
              else Inr (obj\<lparr>d_properties := AList.update key (Str val) (d_properties obj)\<rparr>))))"

subsection \<open>_process_section_properties\<close>

text \<open>The text after the first \<open>=\<close>, stripped: \<open>prop.split('=', 1)[1].strip()\<close>,
  used where the line is known to contain \<open>=\<close>.\<close>

definition after_eq :: "string \<Rightarrow> string" where
  "after_eq prop = strip (split_on1 CHR ''='' prop ! 1)"

definition conditions_of :: "string \<Rightarrow> secval" where
  "conditions_of prop = (if CHR ''='' \<in> set prop then SStr (after_eq prop) else SStr ''None'')"

text \<open>The loop over a WeaponSet's lines; the state is \<open>(weapons, conditions)\<close>.\<close>

fun scan_weaponset ::
  "string list \<Rightarrow> (string \<times> string) list \<times> secval \<Rightarrow> (string \<times> string) list \<times> secval" where
  "scan_weaponset [] acc = acc"
| "scan_weaponset (prop # props) (weapons, conditions) =
     scan_weaponset props
       (if startswith prop ''Conditions'' then (weapons, conditions_of prop)
        else if startswith prop ''Weapon'' \<and> CHR ''='' \<in> set prop then
          (let parts = split_ws (after_eq prop) in
           if length parts \<ge> 2 then
             (let slot = parts ! 0; weapon_name = parts ! 1 in
              if contains weapon_name ''FX'' then (weapons, conditions)
              else (weapons @ [(slot, weapon_name)], conditions))
           else (weapons, conditions))
        else (weapons, conditions))"

text \<open>The loop over an ArmorSet's lines; \<open>DamageFX\<close> is stored into the section's
  properties inside the loop. The state is \<open>(properties, armors, conditions)\<close>.\<close>

fun scan_armorset ::
  "string list \<Rightarrow> (string \<times> secval) list \<times> string list \<times> secval
     \<Rightarrow> (string \<times> secval) list \<times> string list \<times> secval" where
  "scan_armorset [] acc = acc"
| "scan_armorset (prop # props) (ps, armors, conditions) =
     scan_armorset props
       (if startswith prop ''Conditions'' then (ps, armors, conditions_of prop)
        else if startswith prop ''Armor'' \<and> CHR ''='' \<in> set prop then
          (ps, armors @ [after_eq prop], conditions)
        else if startswith prop ''DamageFX'' \<and> CHR ''='' \<in> set prop then
          (AList.update ''DamageFX'' (SStr (after_eq prop)) ps, armors, conditions)
        else (ps, armors, conditions))"

fun scan_prerequisites :: "string list \<Rightarrow> string list \<Rightarrow> string list" where
  "scan_prerequisites [] acc = acc"
| "scan_prerequisites (prop # props) acc =
     scan_prerequisites props
       (if startswith prop ''Object'' \<and> CHR ''='' \<in> set prop then acc @ [after_eq prop] else acc)"

text \<open>Any other section type: \<open>key = value\<close> lines are stored, the others are
  appended to \<open>_lines\<close>; \<open>append\<close> fails when \<open>_lines\<close> is not a list.\<close>

fun scan_generic ::
  "string list \<Rightarrow> (string \<times> secval) list \<Rightarrow> error + (string \<times> secval) list" where
  "scan_generic [] ps = Inr ps"
| "scan_generic (prop # props) ps =
     (if CHR ''='' \<in> set prop then
        scan_generic props
          (AList.update (strip (split_on1 CHR ''='' prop ! 0)) (SStr (after_eq prop)) ps)
      else
        (case map_of ps ''_lines'' of
           None \<Rightarrow> scan_generic props (AList.update ''_lines'' (SList [EStr prop]) ps)
         | Some (SList l) \<Rightarrow> scan_generic props (AList.update ''_lines'' (SList (l @ [EStr prop])) ps)
         | Some (SStr s) \<Rightarrow> Inl AttributeError
         | Some SNone \<Rightarrow> Inl AttributeError))"

definition process_section_properties :: "ini_section \<Rightarrow> string list \<Rightarrow> error + ini_section" where
  "process_section_properties section properties =
     (if s_type section = ''WeaponSet'' then
        (case scan_weaponset properties ([], SNone) of
           (weapons, conditions) \<Rightarrow>
             Inr (section\<lparr>s_properties :=
                    AList.update ''conditions'' conditions
                      (AList.update ''weapons'' (SList (map EWeapon weapons))
                         (s_properties section))\<rparr>))
      else if s_type section = ''ArmorSet'' then
        (case scan_armorset properties (s_properties section, [], SNone) of
           (ps, armors, conditions) \<Rightarrow>
             Inr (section\<lparr>s_properties :=
                    AList.update ''conditions'' conditions
                      (AList.update ''armors'' (SList (map EStr armors)) ps)\<rparr>))
      else if s_type section = ''Prerequisites'' then
        Inr (section\<lparr>s_properties :=
               AList.update ''prerequisites'' (SList (map EStr (scan_prerequisites properties [])))
                 (s_properties section)\<rparr>)
      else
        bind_e (scan_generic properties (s_properties section))
          (\<lambda>ps. Inr (section\<lparr>s_properties := ps\<rparr>)))"

subsection \<open>parse_ini_content\<close>

text \<open>
  The local variables of \<open>parse_ini_content\<close>. \<open>current_object\<close> is a reference to
  the dictionary stored last in \<open>objects\<close>, and \<open>current_section\<close> and the elements
  of \<open>section_stack\<close> are references to section dictionaries stored in
  \<open>current_object['sections']\<close>; a reference is modelled by the key under which the
  dictionary is stored (the definition's name, the section's key), and a mutation
  through the reference by an update at that key. While \<open>in_section\<close> holds, the
  keys do name the dictionaries the references point to (\<open>parser_inv\<close>, an invariant
  of the loop by lemma \<open>parse_lines_inv\<close>);
  the code reads neither reference otherwise.
\<close>

record parser_state =
  objects :: "(string \<times> ini_object) list"
  current_object :: "string option"
  current_section :: "string option"
  section_stack :: "string list"
  in_section :: bool
  section_properties :: "string list"

definition parser_init :: parser_state where
  "parser_init =
     \<lparr>objects = [], current_object = None, current_section = None, section_stack = [],
      in_section = False, section_properties = []\<rparr>"

text \<open>A mutation of the dictionary that \<open>current_object\<close> refers to.\<close>

definition with_current_object ::
  "parser_state \<Rightarrow> (ini_object \<Rightarrow> error + ini_object) \<Rightarrow> error + parser_state" where
  "with_current_object st f =
     (case current_object st of
        None \<Rightarrow> Inr st
      | Some n \<Rightarrow>
         (case map_of (objects st) n of
            None \<Rightarrow> Inr st
          | Some obj \<Rightarrow>
              bind_e (f obj) (\<lambda>obj'. Inr (st\<lparr>objects := AList.update n obj' (objects st)\<rparr>))))"

text \<open>A mutation of the dictionary that \<open>current_section\<close> refers to.\<close>

definition with_current_section ::
  "parser_state \<Rightarrow> (ini_section \<Rightarrow> error + ini_section) \<Rightarrow> error + parser_state" where
  "with_current_section st f =
     (case current_section st of
        None \<Rightarrow> Inr st
      | Some k \<Rightarrow>
          with_current_object st (\<lambda>obj.
            case map_of (d_sections obj) k of
              None \<Rightarrow> Inr obj
            | Some sec \<Rightarrow>
                bind_e (f sec) (\<lambda>sec'.
                  Inr (obj\<lparr>d_sections := AList.update k sec' (d_sections obj)\<rparr>))))"

text \<open>The branch for a line on which \<open>_is_object_definition\<close> holds.\<close>

definition open_object :: "string \<Rightarrow> nat \<Rightarrow> string \<Rightarrow> parser_state \<Rightarrow> parser_state" where
  "open_object source line_num line_stripped st =
     (case parse_object_definition line_stripped of
        None \<Rightarrow> st
      | Some (obj_type, obj_name) \<Rightarrow>
          if obj_type \<noteq> [] \<and> obj_name \<noteq> [] then
            (let n1 = (if CHR ''='' \<in> set obj_name
                       then filter (\<lambda>c. c \<noteq> CHR ''='') obj_name else obj_name);
                 n2 = (if startswith n1 '' '' then split_on CHR '' '' n1 ! 1 else n1)
             in st\<lparr>objects :=
                      AList.update n2
                        \<lparr>d_type = obj_type, d_name = n2, source_file = source,
                         d_properties = [], d_sections = [], line_number = line_num\<rparr>
                        (objects st),
                    current_object := Some n2,
                    section_stack := [],
                    in_section := False\<rparr>)
          else st)"

text \<open>The branch for the line \<open>End\<close>.\<close>

definition close_block :: "parser_state \<Rightarrow> error + parser_state" where
  "close_block st =
     (if in_section st \<and> current_section st \<noteq> None then
        bind_e
          (if section_properties st \<noteq> [] then
             bind_e
               (with_current_section st (\<lambda>sec.
                  process_section_properties
                    (sec\<lparr>s_properties :=
                           AList.update ''_raw'' (SList (map EStr (section_properties st)))
                             (s_properties sec)\<rparr>)
                    (section_properties st)))
               (\<lambda>st'. Inr (st'\<lparr>section_properties := []\<rparr>))
           else Inr st)
          (\<lambda>st1.
             if section_stack st1 \<noteq> [] then
               (let stack = butlast (section_stack st1) in
                Inr (st1\<lparr>section_stack := stack,
                         current_section := (if stack \<noteq> [] then Some (last stack) else None),
                         in_section := (stack \<noteq> [])\<rparr>))
             else Inr (st1\<lparr>in_section := False, current_section := None\<rparr>))
      else Inr (st\<lparr>current_object := None\<rparr>))"

text \<open>The branch \<open>elif current_object and not in_section\<close>: a typed section
  header, a module line, or a property of the definition. On a module line the first
  token of the text before the first \<open>=\<close> is taken with \<open>[0]\<close>: an
  \<open>IndexError\<close> when that text is blank.\<close>

definition section_headers :: "string list" where
  "section_headers = [''WeaponSet'', ''ArmorSet'', ''Prerequisites'', ''Conditions'']"

definition open_section :: "string \<Rightarrow> ini_section \<Rightarrow> parser_state \<Rightarrow> error + parser_state" where
  "open_section key section st =
     bind_e
       (with_current_object st (\<lambda>obj.
          Inr (obj\<lparr>d_sections := AList.update key section (d_sections obj)\<rparr>)))
       (\<lambda>st'. Inr (st'\<lparr>in_section := True,
                        current_section := Some key,
                        section_properties := [],
                        section_stack := section_stack st' @ [key]\<rparr>))"

definition definition_line :: "string \<Rightarrow> parser_state \<Rightarrow> error + parser_state" where
  "definition_line line_stripped st =
     (if line_stripped \<in> set section_headers then
        open_section line_stripped
          \<lparr>s_type = line_stripped, s_tag = None, s_properties = []\<rparr> st
      else if CHR ''='' \<in> set line_stripped \<and> contains line_stripped ''ModuleTag_'' then
        (let tokens = split_ws (strip (split_on CHR ''='' line_stripped ! 0)) in
         if tokens = [] then Inl IndexError
         else open_section (last tokens)
                \<lparr>s_type = hd tokens, s_tag = Some (last tokens), s_properties = []\<rparr> st)
      else with_current_object st (parse_property line_stripped))"

text \<open>The body of the loop over the lines.\<close>

definition parse_line :: "string \<Rightarrow> nat \<Rightarrow> string \<Rightarrow> parser_state \<Rightarrow> error + parser_state" where
  "parse_line source line_num line st =
     (let line_stripped = strip line in
      if line_stripped = [] \<or> startswith line_stripped '';'' then Inr st
      else if is_object_definition line_stripped then
        Inr (open_object source line_num line_stripped st)
      else if line_stripped = ''End'' then close_block st
      else if current_object st \<noteq> None \<and> \<not> in_section st then
        definition_line line_stripped st
      else if current_object st \<noteq> None \<and> in_section st \<and> current_section st \<noteq> None then
        Inr (st\<lparr>section_properties := section_properties st @ [line_stripped]\<rparr>)
      else Inr st)"

fun parse_lines :: "string \<Rightarrow> nat \<Rightarrow> string list \<Rightarrow> parser_state \<Rightarrow> error + parser_state" where
  "parse_lines source line_num [] st = Inr st"
| "parse_lines source line_num (line # lines) st =
     bind_e (parse_line source line_num line st) (parse_lines source (Suc line_num) lines)"

definition parse_ini_content :: "string \<Rightarrow> string \<Rightarrow> error + (string \<times> ini_object) list" where
  "parse_ini_content content source =
     bind_e (parse_lines source 0 (split_on (CHR 0x0A) content) parser_init)
       (\<lambda>st. Inr (objects st))"

section \<open>The relationship graph builder (SmartINIParser._build_relationships)\<close>

text \<open>
  The ten dictionaries of \<open>self.relationships\<close>. A value is what the code stores:
  lists of names, the first element of an \<open>armors\<close> list, the \<open>prerequisites\<close>
  property as it is, the \<open>TriggeredBy\<close> property as it is (also as a key).
\<close>

record relationships =
  unit_weapons :: "(string \<times> string list) list"
  weapon_units :: "(string \<times> string list) list"
  unit_armor :: "(string \<times> elem) list"
  unit_locomotor :: "(string \<times> string) list"
  unit_general :: "(string \<times> string) list"
  general_units :: "(string \<times> string list) list"
  upgrade_units :: "(secval \<times> string list) list"
  unit_upgrades :: "(string \<times> secval list) list"
  prerequisites :: "(string \<times> secval) list"
  enables :: "(string \<times> string list) list"

definition relationships_init :: relationships where
  "relationships_init =
     \<lparr>unit_weapons = [], weapon_units = [], unit_armor = [], unit_locomotor = [],
      unit_general = [], general_units = [], upgrade_units = [], unit_upgrades = [],
      prerequisites = [], enables = []\<rparr>"

text \<open>\<open>if k not in d: d[k] = []\<close> followed by \<open>d[k].append(x)\<close>.\<close>

definition dict_append :: "('k \<times> 'v list) list \<Rightarrow> 'k \<Rightarrow> 'v \<Rightarrow> ('k \<times> 'v list) list" where
  "dict_append d k x = AList.update k ((case map_of d k of None \<Rightarrow> [] | Some l \<Rightarrow> l) @ [x]) d"

text \<open>\<open>d.get(key, [])\<close> on the properties of a section.\<close>

definition get_or_empty :: "(string \<times> secval) list \<Rightarrow> string \<Rightarrow> secval" where
  "get_or_empty ps key = (case map_of ps key of None \<Rightarrow> SList [] | Some v \<Rightarrow> v)"

text \<open>Truth value and iteration of a property: \<open>None\<close> cannot be iterated, a
  \<open>str\<close> yields its characters as strings.\<close>

fun truthy :: "secval \<Rightarrow> bool" where
  "truthy SNone \<longleftrightarrow> False"
| "truthy (SStr s) \<longleftrightarrow> s \<noteq> []"
| "truthy (SList l) \<longleftrightarrow> l \<noteq> []"

fun py_iter :: "secval \<Rightarrow> error + elem list" where
  "py_iter SNone = Inl TypeError"
| "py_iter (SStr s) = Inr (map (\<lambda>c. EStr [c]) s)"
| "py_iter (SList l) = Inr l"

text \<open>\<open>for weapon_info in weapons\<close>: \<open>weapon_info.get('weapon')\<close> exists on a
  dictionary only. The state is \<open>(weapon_names, weapon_units)\<close>.\<close>

fun weapon_loop ::
  "string \<Rightarrow> elem list \<Rightarrow> string list \<times> (string \<times> string list) list
     \<Rightarrow> error + string list \<times> (string \<times> string list) list" where
  "weapon_loop obj_name [] acc = Inr acc"
| "weapon_loop obj_name (EStr s # rest) acc = Inl AttributeError"
| "weapon_loop obj_name (EWeapon (slot, weapon_name) # rest) (weapon_names, wu) =
     weapon_loop obj_name rest
       (if weapon_name \<noteq> []
        then (weapon_names @ [weapon_name], dict_append wu weapon_name obj_name)
        else (weapon_names, wu))"

definition weapon_relationships ::
  "string \<Rightarrow> ini_object \<Rightarrow> relationships \<Rightarrow> error + relationships" where
  "weapon_relationships obj_name obj_data r =
     (case map_of (d_sections obj_data) ''WeaponSet'' of
        None \<Rightarrow> Inr r
      | Some weapon_set \<Rightarrow>
          bind_e (py_iter (get_or_empty (s_properties weapon_set) ''weapons'')) (\<lambda>weapons.
          bind_e (weapon_loop obj_name weapons ([], weapon_units r)) (\<lambda>(weapon_names, wu).
            Inr (if weapon_names \<noteq> []
                 then r\<lparr>weapon_units := wu,
                        unit_weapons := AList.update obj_name weapon_names (unit_weapons r)\<rparr>
                 else r\<lparr>weapon_units := wu\<rparr>))))"

text \<open>\<open>if armors: unit_armor[obj_name] = armors[0]\<close>\<close>

definition armor_relationships :: "string \<Rightarrow> ini_object \<Rightarrow> relationships \<Rightarrow> relationships" where
  "armor_relationships obj_name obj_data r =
     (case map_of (d_sections obj_data) ''ArmorSet'' of
        None \<Rightarrow> r
      | Some armor_set \<Rightarrow>
         (case get_or_empty (s_properties armor_set) ''armors'' of
            SList (x # xs) \<Rightarrow> r\<lparr>unit_armor := AList.update obj_name x (unit_armor r)\<rparr>
          | SStr (c # cs) \<Rightarrow> r\<lparr>unit_armor := AList.update obj_name (EStr [c]) (unit_armor r)\<rparr>
          | _ \<Rightarrow> r))"

definition locomotor_relationships ::
  "string \<Rightarrow> ini_object \<Rightarrow> relationships \<Rightarrow> relationships" where
  "locomotor_relationships obj_name obj_data r =
     (case map_of (d_properties obj_data) ''Locomotor'' of
        Some (Str loco_value) \<Rightarrow>
          if CHR '' '' \<in> set loco_value then
            (let parts = split_ws loco_value in
             if length parts \<ge> 2
             then r\<lparr>unit_locomotor := AList.update obj_name (last parts) (unit_locomotor r)\<rparr>
             else r)
          else r
      | _ \<Rightarrow> r)"

text \<open>\<open>for prereq in prereqs\<close>: \<open>prereq not in enables\<close> hashes \<open>prereq\<close>, which
  a dictionary does not allow.\<close>

fun enables_loop ::
  "string \<Rightarrow> elem list \<Rightarrow> (string \<times> string list) list \<Rightarrow> error + (string \<times> string list) list" where
  "enables_loop obj_name [] en = Inr en"
| "enables_loop obj_name (EStr prereq # rest) en =
     enables_loop obj_name rest (dict_append en prereq obj_name)"
| "enables_loop obj_name (EWeapon w # rest) en = Inl TypeError"

definition prerequisite_relationships ::
  "string \<Rightarrow> ini_object \<Rightarrow> relationships \<Rightarrow> error + relationships" where
  "prerequisite_relationships obj_name obj_data r =
     (case map_of (d_sections obj_data) ''Prerequisites'' of
        None \<Rightarrow> Inr r
      | Some prereq_section \<Rightarrow>
         (let prereqs = get_or_empty (s_properties prereq_section) ''prerequisites'' in
          if truthy prereqs then
            bind_e (py_iter prereqs) (\<lambda>elems.
            bind_e (enables_loop obj_name elems (enables r)) (\<lambda>en.
              Inr (r\<lparr>prerequisites := AList.update obj_name prereqs (prerequisites r),
                     enables := en\<rparr>)))
          else Inr r))"

definition general_mapping :: "(string \<times> string) list" where
  "general_mapping =
     [(''AmericaInfantry.ini'', ''America''), (''AmericaVehicle.ini'', ''America''),
      (''AmericaAir.ini'', ''America''), (''ChinaInfantry.ini'', ''China''),
      (''ChinaVehicle.ini'', ''China''), (''ChinaAir.ini'', ''China''),
      (''GLAInfantry.ini'', ''GLA''), (''GLAVehicle.ini'', ''GLA''),
      (''AirforceGeneral.ini'', ''AirforceGeneral''), (''LaserGeneral.ini'', ''LaserGeneral''),
      (''SuperweaponGeneral.ini'', ''SuperweaponGeneral''),
      (''InfantryGeneral.ini'', ''InfantryGeneral''), (''TankGeneral.ini'', ''TankGeneral''),
      (''DemoGeneral.ini'', ''DemoGeneral''), (''ChemicalGeneral.ini'', ''ChemicalGeneral''),
      (''StealthGeneral.ini'', ''StealthGeneral''), (''BossGeneral.ini'', ''BossGeneral'')]"

definition extract_general_from_path :: "string \<Rightarrow> string option" where
  "extract_general_from_path p = map_of general_mapping (last (split_on (CHR 0x5C) p))"

definition general_relationships :: "string \<Rightarrow> ini_object \<Rightarrow> relationships \<Rightarrow> relationships" where
  "general_relationships obj_name obj_data r =
     (if startswith (source_file obj_data) ''Object'' then
        (case extract_general_from_path (source_file obj_data) of
           None \<Rightarrow> r
         | Some general \<Rightarrow>
             if general \<noteq> []
             then r\<lparr>unit_general := AList.update obj_name general (unit_general r),
                    general_units := dict_append (general_units r) general obj_name\<rparr>
             else r)
      else r)"

text \<open>\<open>for section_name, section_data in sections.items()\<close>: a list cannot be
  the key \<open>upgrade_name\<close> of \<open>upgrade_units\<close>.\<close>

fun upgrade_loop ::
  "string \<Rightarrow> (string \<times> ini_section) list \<Rightarrow> relationships \<Rightarrow> error + relationships" where
  "upgrade_loop obj_name [] r = Inr r"
| "upgrade_loop obj_name ((section_name, section_data) # rest) r =
     (if s_type section_data = ''ObjectCreationUpgrade'' then
        (case map_of (s_properties section_data) ''TriggeredBy'' of
           None \<Rightarrow> upgrade_loop obj_name rest r
         | Some (SList l) \<Rightarrow> Inl TypeError
         | Some upgrade_name \<Rightarrow>
             upgrade_loop obj_name rest
               (r\<lparr>unit_upgrades := dict_append (unit_upgrades r) obj_name upgrade_name,
                  upgrade_units := dict_append (upgrade_units r) upgrade_name obj_name\<rparr>))
      else upgrade_loop obj_name rest r)"

text \<open>The body of \<open>for obj_name, obj_data in all_objects.items()\<close>.\<close>

definition build_object :: "string \<Rightarrow> ini_object \<Rightarrow> relationships \<Rightarrow> error + relationships" where
  "build_object obj_name obj_data r =
     bind_e (weapon_relationships obj_name obj_data r) (\<lambda>r1.
     bind_e (prerequisite_relationships obj_name obj_data
               (locomotor_relationships obj_name obj_data
                  (armor_relationships obj_name obj_data r1))) (\<lambda>r2.
       upgrade_loop obj_name (d_sections obj_data) (general_relationships obj_name obj_data r2)))"

fun build_loop :: "(string \<times> ini_object) list \<Rightarrow> relationships \<Rightarrow> error + relationships" where
  "build_loop [] r = Inr r"
| "build_loop ((obj_name, obj_data) # rest) r =
     bind_e (build_object obj_name obj_data r) (build_loop rest)"

text \<open>\<open>_build_relationships\<close> starts from empty dictionaries; an exception leaves
  \<open>self.relationships\<close> partly filled, which the result \<open>Inl\<close> does not show.\<close>

definition build_relationships :: "(string \<times> ini_object) list \<Rightarrow> error + relationships" where
  "build_relationships all_objects = build_loop all_objects relationships_init"

text \<open>
  The shapes that the builder relies on: the \<open>weapons\<close> of a section stored under
  \<open>WeaponSet\<close> is a list of slot/weapon dictionaries (what the WeaponSet
  post-processing writes), the \<open>prerequisites\<close> of a section stored under
  \<open>Prerequisites\<close> holds no dictionaries, and a \<open>TriggeredBy\<close> is not a list.
\<close>

fun is_weapon :: "elem \<Rightarrow> bool" where
  "is_weapon (EWeapon w) \<longleftrightarrow> True"
| "is_weapon (EStr s) \<longleftrightarrow> False"

fun is_list :: "secval \<Rightarrow> bool" where
  "is_list (SList l) \<longleftrightarrow> True"
| "is_list v \<longleftrightarrow> False"

definition shapes_ok :: "ini_object \<Rightarrow> bool" where
  "shapes_ok obj_data \<longleftrightarrow>
     (case map_of (d_sections obj_data) ''WeaponSet'' of
        None \<Rightarrow> True
      | Some weapon_set \<Rightarrow>
          (case get_or_empty (s_properties weapon_set) ''weapons'' of
             SList l \<Rightarrow> list_all is_weapon l | SStr s \<Rightarrow> s = [] | SNone \<Rightarrow> False))
     \<and> (case map_of (d_sections obj_data) ''Prerequisites'' of
          None \<Rightarrow> True
        | Some prereq_section \<Rightarrow>
            (case get_or_empty (s_properties prereq_section) ''prerequisites'' of
               SList l \<Rightarrow> list_all (\<lambda>x. \<not> is_weapon x) l | _ \<Rightarrow> True))
     \<and> list_all (\<lambda>(section_name, section_data).
           s_type section_data = ''ObjectCreationUpgrade'' \<longrightarrow>
             (case map_of (s_properties section_data) ''TriggeredBy'' of
                None \<Rightarrow> True | Some v \<Rightarrow> \<not> is_list v))
         (d_sections obj_data)"

text \<open>The elements of a property, as \<open>for x in v\<close> yields them.\<close>

definition elems_of :: "secval \<Rightarrow> elem list" where
  "elems_of v = (case py_iter v of Inl e \<Rightarrow> [] | Inr l \<Rightarrow> l)"

section \<open>Example inputs\<close>

definition two_entries :: BIGArchive where
  "two_entries =
     \<lparr>header = Some BIGF, file_size = 0,
      entries = [\<lparr>ident = 0, offset = 0, size_e = 1, path = ''a.ini'', data = Some [1], modified = False\<rparr>,
                 \<lparr>ident = 1, offset = 0, size_e = 1, path = ''a.ini'', data = Some [1], modified = False\<rparr>],
      original_data = None, next_ident = 2\<rparr>"

definition gap_archive :: "byte list" where
  "gap_archive =
     [0x42, 0x49, 0x47, 0x46,  0x28, 0, 0, 0,  0, 0, 0, 2,  0, 0, 0, 0,
      0, 0, 0, 0x25,  0, 0, 0, 1,  0x61, 0,
      0, 0, 0, 0x26,  0, 0, 0, 2,  0x62, 0,
      0xFF,  0x2A,  7, 8]"

definition bigx_archive :: "byte list" where
  "bigx_archive = [0x42, 0x49, 0x47, 0x58,  0x10, 0, 0, 0,  0, 0, 0, 0,  0, 0, 0, 0]"

text \<open>One entry \<open>a\<close> with the payload \<open>[1, 2]\<close>, in the BIG5 layout.\<close>

definition big5_archive :: "byte list" where
  "big5_archive =
     [0x42, 0x49, 0x47, 0x35,  0x1C, 0, 0, 0,  0, 0, 0, 1,  0, 0, 0,
      0,  0, 0, 0, 0x1A,  0, 0, 0, 2,  0x61, 0,
      1, 2]"

definition zip_bytes :: "byte list" where
  "zip_bytes = [0x50, 0x4B, 3, 4,  0, 0, 0, 0,  0, 0, 0, 0,  0, 0, 0, 0]"

definition gap_loaded :: BIGArchive where
  "gap_loaded =
     \<lparr>header = Some BIGF, file_size = 40,
       entries = [\<lparr>ident = 0, offset = 37, size_e = 1, path = ''a'', data = Some [0x2A], modified = False\<rparr>,
                  \<lparr>ident = 1, offset = 38, size_e = 2, path = ''b'', data = Some [7, 8], modified = False\<rparr>],
       original_data = Some gap_archive, next_ident = 2\<rparr>"

text \<open>A config text from its lines.\<close>

definition ini_text :: "string list \<Rightarrow> string" where
  "ini_text ls = concat (map (\<lambda>l. l @ [CHR 0x0A]) ls)"

definition crusader_ini :: string where
  "crusader_ini = ini_text
     [''Object Crusader'',
      ''  WeaponSet'',
      ''    Conditions = None'',
      ''    Weapon = PRIMARY CrusaderTankGun'',
      ''    Weapon = SECONDARY CrusaderTankGunFX'',
      ''  End'',
      ''End'']"

definition weaponset_section :: ini_section where
  "weaponset_section = \<lparr>s_type = ''WeaponSet'', s_tag = None, s_properties = []\<rparr>"

text \<open>The entry that one buffered line of a WeaponSet contributes to \<open>weapons\<close>.\<close>

definition weapon_entry :: "string \<Rightarrow> (string \<times> string) list" where
  "weapon_entry prop =
     (if \<not> startswith prop ''Conditions'' \<and> startswith prop ''Weapon'' \<and> CHR ''='' \<in> set prop
         \<and> length (split_ws (after_eq prop)) \<ge> 2
         \<and> \<not> contains (split_ws (after_eq prop) ! 1) ''FX''
      then [(split_ws (after_eq prop) ! 0, split_ws (after_eq prop) ! 1)]
      else [])"

text \<open>A value that can follow a key on a line without \<open>=\<close>: not empty, no \<open>=\<close>,
  no whitespace at either end.\<close>

definition plain_value :: "string \<Rightarrow> bool" where
  "plain_value v \<longleftrightarrow>
     v \<noteq> [] \<and> CHR ''='' \<notin> set v \<and> \<not> py_isspace (hd v) \<and> \<not> py_isspace (last v)"

text \<open>The list held for a multi-valued key: empty when the key is absent, none when
  the key holds a \<open>str\<close>.\<close>

definition multi_values :: "ini_object \<Rightarrow> string \<Rightarrow> string list option" where
  "multi_values obj key =
     (case map_of (d_properties obj) key of
        None \<Rightarrow> Some [] | Some (StrList vs) \<Rightarrow> Some vs | Some (Str v) \<Rightarrow> None)"

definition tank_open :: parser_state where
  "tank_open =
     \<lparr>objects = [(''Tank'', \<lparr>d_type = ''Object'', d_name = ''Tank'', source_file = ''a.ini'',
                              d_properties = [], d_sections = [], line_number = 0\<rparr>)],
      current_object = Some ''Tank'', current_section = None, section_stack = [],
      in_section = False, section_properties = []\<rparr>"

text \<open>
  The invariant of the loop of \<open>parse_ini_content\<close>: while \<open>in_section\<close> holds there
  is a current definition, stored in \<open>objects\<close>, the stack holds exactly the current
  section, and that section is stored in the current definition; otherwise the stack
  is empty.
\<close>

definition parser_inv :: "parser_state \<Rightarrow> bool" where
  "parser_inv st \<longleftrightarrow>
     (case current_object st of
        None \<Rightarrow> \<not> in_section st \<and> section_stack st = []
      | Some n \<Rightarrow>
         (case map_of (objects st) n of
            None \<Rightarrow> False
          | Some obj \<Rightarrow>
              if in_section st
              then (case current_section st of
                      None \<Rightarrow> False
                    | Some k \<Rightarrow> section_stack st = [k] \<and> map_of (d_sections obj) k \<noteq> None)
              else section_stack st = []))"

text \<open>A line that the parser takes for a module header when a definition is open and
  no section is: not blank, not a comment, not an object definition, and with \<open>=\<close>
  and the marker \<open>ModuleTag_\<close> in it.\<close>

definition module_line :: "string \<Rightarrow> bool" where
  "module_line ls \<longleftrightarrow>
     ls \<noteq> [] \<and> \<not> startswith ls '';'' \<and> \<not> is_object_definition ls
     \<and> CHR ''='' \<in> set ls \<and> contains ls ''ModuleTag_''"

definition draw_open :: parser_state where
  "draw_open =
     \<lparr>objects = [(''T'', \<lparr>d_type = ''Object'', d_name = ''T'', source_file = ''a.ini'',
                           d_properties = [],
                           d_sections = [(''Draw'', \<lparr>s_type = ''Draw'', s_tag = Some ''Draw'',
                                                     s_properties = []\<rparr>)],
                           line_number = 0\<rparr>)],
      current_object = Some ''T'', current_section = Some ''Draw'', section_stack = [''Draw''],
      in_section = True, section_properties = []\<rparr>"

text \<open>\<open>has d k x\<close>: the list stored under \<open>k\<close> contains \<open>x\<close>.\<close>

definition has :: "('k \<times> 'v list) list \<Rightarrow> 'k \<Rightarrow> 'v \<Rightarrow> bool" where
  "has d k x \<longleftrightarrow> (case map_of d k of None \<Rightarrow> False | Some l \<Rightarrow> x \<in> set l)"

text \<open>Every forward edge has its reverse edge.\<close>

definition edges_symmetric :: "relationships \<Rightarrow> bool" where
  "edges_symmetric r \<longleftrightarrow>
     (\<forall>u w. has (unit_weapons r) u w \<longrightarrow> has (weapon_units r) w u)
     \<and> (\<forall>ob v p. map_of (prerequisites r) ob = Some v \<and> EStr p \<in> set (elems_of v)
           \<longrightarrow> has (enables r) p ob)"


definition all_shapes_ok :: "(string \<times> ini_object) list \<Rightarrow> bool" where
  "all_shapes_ok all_objects \<longleftrightarrow> list_all (\<lambda>(n, obj). shapes_ok obj) all_objects"

definition humvee_weaponset :: ini_section where
  "humvee_weaponset =
     \<lparr>s_type = ''WeaponSet'', s_tag = None,
      s_properties = [(''_raw'', SList [EStr ''Weapon=PRIMARY HumveeGun'']),
                      (''weapons'', SList [EWeapon (''PRIMARY'', ''HumveeGun'')]),
                      (''conditions'', SNone)]\<rparr>"

definition humvee :: ini_object where
  "humvee =
     \<lparr>d_type = ''Object'', d_name = ''Humvee'', source_file = ''a.ini'', d_properties = [],
      d_sections =
        [(''WeaponSet'', humvee_weaponset),
         (''Prerequisites'',
          \<lparr>s_type = ''Prerequisites'', s_tag = None,
           s_properties = [(''_raw'', SList [EStr ''Object=WarFactory'']),
                           (''prerequisites'', SList [EStr ''WarFactory''])]\<rparr>)],
      line_number = 0\<rparr>"

definition humvee_ini :: string where
  "humvee_ini = ini_text
     [''Object Humvee'', ''  WeaponSet'', ''    Weapon=PRIMARY HumveeGun'', ''  End'',
      ''  Prerequisites'', ''    Object=WarFactory'', ''  End'', ''End'']"

definition humvee_rel :: relationships where
  "humvee_rel =
     \<lparr>unit_weapons = [(''Humvee'', [''HumveeGun''])],
      weapon_units = [(''HumveeGun'', [''Humvee''])],
      unit_armor = [], unit_locomotor = [], unit_general = [], general_units = [],
      upgrade_units = [], unit_upgrades = [],
      prerequisites = [(''Humvee'', SList [EStr ''WarFactory''])],
      enables = [(''WarFactory'', [''Humvee''])]\<rparr>"

definition mistyped_ini :: string where
  "mistyped_ini = ini_text
     [''Object Humvee'', ''  WeaponSet'', ''    Weapon=PRIMARY HumveeGun'', ''  End'', ''End'',
      ''Object Depot'', ''  Draw WeaponSet = ModuleTag_01'', ''    weapons = none'', ''  End'',
      ''End'']"

definition mistyped_objects :: "(string \<times> ini_object) list" where
  "mistyped_objects =
     [(''Humvee'',
       \<lparr>d_type = ''Object'', d_name = ''Humvee'', source_file = ''a.ini'', d_properties = [],
        d_sections = [(''WeaponSet'', humvee_weaponset)], line_number = 0\<rparr>),
      (''Depot'',
       \<lparr>d_type = ''Object'', d_name = ''Depot'', source_file = ''a.ini'', d_properties = [],
        d_sections =
          [(''WeaponSet'',
            \<lparr>s_type = ''Draw'', s_tag = Some ''WeaponSet'',
             s_properties = [(''_raw'', SList [EStr ''weapons = none'']),
                             (''weapons'', SStr ''none'')]\<rparr>)],
        line_number = 5\<rparr>)]"


section \<open>Properties of the container codec\<close>

lemma list_remove_filter:
  "distinct (map ident es) \<Longrightarrow> list_remove r es = filter (\<lambda>e. ident e \<noteq> r) es"
proof (induction es)
  case Nil
  then show ?case by simp
next
  case (Cons e es)
  show ?case
  proof (cases "ident e = r")
    case True
    with Cons.prems have "\<forall>x \<in> set es. ident x \<noteq> r" by (auto simp: image_iff)
    then have "filter (\<lambda>e. ident e \<noteq> r) es = es" by (simp add: filter_id_conv)
    with True show ?thesis by simp
  next
    case False
    with Cons show ?thesis by simp
  qed
qed

lemma archive_inv_init: "archive_inv BIGArchive_init"
  by (simp add: archive_inv_def BIGArchive_init_def)

lemma archive_inv_add_file: "archive_inv a \<Longrightarrow> archive_inv (fst (add_file a p d))"
  by (auto simp: archive_inv_def add_file_def Let_def less_Suc_eq)

lemma archive_inv_remove_file: "archive_inv a \<Longrightarrow> archive_inv (fst (remove_file a r))"
  by (auto simp: archive_inv_def remove_file_def list_remove_filter distinct_map_filter)

lemma archive_inv_update_file: "archive_inv a \<Longrightarrow> archive_inv (update_file a r d)"
proof -
  have "map ident (entries (update_file a r d)) = map ident (entries a)"
    by (simp add: update_file_def)
  moreover have "next_ident (update_file a r d) = next_ident a"
    by (simp add: update_file_def)
  moreover assume "archive_inv a"
  ultimately show ?thesis
    unfolding archive_inv_def
    by (metis (no_types, lifting) imageE image_eqI list.set_map)
qed

lemma read_entries_inv:
  "archive_inv a \<Longrightarrow> archive_inv (fst (read_entries big5 d n p a))"
proof (induction n arbitrary: p a)
  case 0
  then show ?case by simp
next
  case (Suc n)
  show ?case
  proof (cases "read_record big5 d p")
    case (Inl e)
    with Suc.prems show ?thesis by simp
  next
    case (Inr t)
    obtain off sz nm p' where t: "t = (off, sz, nm, p')" by (cases t) auto
    let ?a = "a\<lparr>entries := entries a @
                  [\<lparr>ident = next_ident a, offset = off, size_e = sz, path = nm,
                    data = None, modified = False\<rparr>],
               next_ident := Suc (next_ident a)\<rparr>"
    from Suc.prems have "archive_inv ?a"
      by (auto simp: archive_inv_def less_Suc_eq)
    from Suc.IH [OF this] Inr t show ?thesis by simp
  qed
qed

text \<open>
  Claim C5. After \<open>add_file p d\<close> the entry list is the old one followed by exactly
  one new entry with path \<open>p\<close>, data \<open>d\<close>, size \<open>len(d)\<close> and the modified
  flag set; after \<open>remove_file\<close> of an entry of the list that entry is absent and
  the others are there as before, in order; after \<open>update_file\<close> the entry has
  the new data, its length as size and the modified flag set, and every other entry
  is unchanged.
\<close>

theorem crud_postconditions:
  "(case add_file a p d of (a', e) \<Rightarrow>
      entries a' = entries a @ [e] \<and> path e = p \<and> data e = Some d \<and>
      size_e e = length d \<and> modified e = True)
   \<and> (archive_inv a \<and> r \<in> ident ` set (entries a) \<longrightarrow>
        snd (remove_file a r) = Inr ()
        \<and> r \<notin> ident ` set (entries (fst (remove_file a r)))
        \<and> entries (fst (remove_file a r)) = filter (\<lambda>e. ident e \<noteq> r) (entries a))
   \<and> length (entries (update_file a r d2)) = length (entries a)
   \<and> (\<forall>i < length (entries a).
        entries (update_file a r d2) ! i =
          (if ident (entries a ! i) = r
           then (entries a ! i)\<lparr>data := Some d2, size_e := length d2, modified := True\<rparr>
           else entries a ! i))"
proof -
  have add: "case add_file a p d of (a', e) \<Rightarrow>
      entries a' = entries a @ [e] \<and> path e = p \<and> data e = Some d \<and>
      size_e e = length d \<and> modified e = True"
    by (simp add: add_file_def Let_def)
  have rem: "archive_inv a \<and> r \<in> ident ` set (entries a) \<longrightarrow>
        snd (remove_file a r) = Inr ()
        \<and> r \<notin> ident ` set (entries (fst (remove_file a r)))
        \<and> entries (fst (remove_file a r)) = filter (\<lambda>e. ident e \<noteq> r) (entries a)"
    by (auto simp: remove_file_def archive_inv_def list_remove_filter)
  have upd1: "length (entries (update_file a r d2)) = length (entries a)"
    by (simp add: update_file_def)
  have upd2: "\<forall>i < length (entries a).
        entries (update_file a r d2) ! i =
          (if ident (entries a ! i) = r
           then (entries a ! i)\<lparr>data := Some d2, size_e := length d2, modified := True\<rparr>
           else entries a ! i)"
    by (simp add: update_file_def)
  from add rem upd1 upd2 show ?thesis by blast
qed

theorem crud_postconditions_witness:
  "archive_inv two_entries \<and> 0 \<in> ident ` set (entries two_entries)
   \<and> snd (remove_file two_entries 0) = Inr ()
   \<and> entries (fst (remove_file two_entries 0)) =
       [\<lparr>ident = 1, offset = 0, size_e = 1, path = ''a.ini'', data = Some [1], modified = False\<rparr>]
   \<and> 0 < length (entries two_entries)
   \<and> entries (update_file two_entries 0 [7, 8]) ! 0 =
       \<lparr>ident = 0, offset = 0, size_e = 2, path = ''a.ini'', data = Some [7, 8], modified = True\<rparr>"
  using crud_postconditions [of two_entries "''x''" "[]" 0 "[7, 8]"]
  by (simp add: two_entries_def archive_inv_def)

lemma write_uint32_be_length: "write_uint32_be v = Inr bs \<Longrightarrow> length bs = 4"
  by (auto simp: write_uint32_be_def split: if_splits)

lemma byte_of_nat: "unat (of_nat n :: byte) = n mod 256"
  by (simp add: unat_of_nat)

lemma u32_digits:
  assumes "v < 2 ^ 32"
  shows "(v div 2 ^ 24) mod 256 * 2 ^ 24 + (v div 2 ^ 16) mod 256 * 2 ^ 16
           + (v div 2 ^ 8) mod 256 * 2 ^ 8 + v mod 256 = (v::nat)"
proof -
  define a where "a = v div 256"
  define b where "b = a div 256"
  define c where "c = b div 256"
  have v: "v = 256 * a + v mod 256" by (simp add: a_def)
  have a: "a = 256 * b + a mod 256" by (simp add: b_def)
  have b: "b = 256 * c + b mod 256" by (simp add: c_def)
  have a': "v div 2 ^ 8 = a" by (simp add: a_def)
  have b': "v div 2 ^ 16 = b"
  proof -
    have "v div (256 * 256) = v div 256 div 256" by (rule div_mult2_eq)
    then show ?thesis by (simp add: a_def b_def)
  qed
  have c': "v div 2 ^ 24 = c"
  proof -
    have "v div (256 * 256 * 256) = v div (256 * 256) div 256" by (rule div_mult2_eq)
    also have "v div (256 * 256) = v div 256 div 256" by (rule div_mult2_eq)
    finally show ?thesis by (simp add: a_def b_def c_def)
  qed
  have "c < 256"
  proof -
    from assms have "v < 256 * 2 ^ 24" by simp
    then have "v div 2 ^ 24 < 256" by (simp add: less_mult_imp_div_less)
    with c' show ?thesis by simp
  qed
  then have c: "c mod 256 = c" by simp
  show ?thesis
    unfolding a' b' c' c using v a b by simp
qed

lemma read_write_uint32_be: "write_uint32_be v = Inr bs \<Longrightarrow> read_uint32_be bs = Inr v"
  using u32_digits [of v]
  by (auto simp: write_uint32_be_def read_uint32_be_def byte_of_nat split: if_splits)

lemma read_write_uint32_le: "write_uint32_le v = Inr bs \<Longrightarrow> read_uint32_le bs = Inr v"
  using u32_digits [of v]
  by (auto simp: write_uint32_le_def read_uint32_le_def byte_of_nat add_ac split: if_splits)

lemma read_uint32_be_bound: "read_uint32_be d = Inr v \<Longrightarrow> v < 2 ^ 32"
proof -
  assume r: "read_uint32_be d = Inr v"
  have b: "unat (x :: byte) \<le> 255" for x
    using unsigned_less [of x, where ?'a = nat] by simp
  from r have "v = unat (d ! 0) * 2 ^ 24 + unat (d ! 1) * 2 ^ 16 + unat (d ! 2) * 2 ^ 8 + unat (d ! 3)"
    by (auto simp: read_uint32_be_def split: if_splits)
  with b [of "d ! 0"] b [of "d ! 1"] b [of "d ! 2"] b [of "d ! 3"] show ?thesis by simp
qed

lemma drop_app: "drop p d = xs @ ys \<Longrightarrow> drop (p + length xs) d = ys"
  by (metis add.commute append_eq_conv_conj drop_drop)

lemma take_app: "drop p d = xs @ ys \<Longrightarrow> take (length xs) (drop p d) = xs"
  by simp

lemma read_string_loop_encoded:
  "\<forall>b \<in> set bs. b \<noteq> 0 \<Longrightarrow> read_string_loop (bs @ 0 # rest) = (bs, Suc (length bs))"
  by (induction bs) auto

lemma read_string_loop_nonzero: "\<forall>b \<in> set (fst (read_string_loop bs)). b \<noteq> 0"
  by (induction bs) (auto split: prod.splits)

lemma of_char_byte: "unat (of_nat (of_char c) :: byte) = of_char c"
  by (simp add: byte_of_nat)

lemma decode_encode:
  "path_ok s \<Longrightarrow> decode_ascii_ignore (map (\<lambda>c. of_nat (of_char c)) s) = s"
  by (induction s) (auto simp: path_ok_def decode_ascii_ignore_def of_char_byte)

lemma encode_nonzero:
  "path_ok s \<Longrightarrow> \<forall>b \<in> set (map (\<lambda>c. of_nat (of_char c) :: byte) s). b \<noteq> 0"
proof (induction s)
  case Nil
  then show ?case by simp
next
  case (Cons c s)
  have "unat (of_nat (of_char c) :: byte) \<noteq> 0"
    using Cons.prems by (simp add: of_char_byte path_ok_def)
  then have "(of_nat (of_char c) :: byte) \<noteq> 0" by auto
  with Cons show ?case by (simp add: path_ok_def)
qed

lemma write_string_length: "write_string s = Inr bp \<Longrightarrow> length bp = length s + 1"
  by (auto simp: write_string_def split: if_splits)

lemma write_string_ok: "path_ok s \<Longrightarrow> \<exists>bp. write_string s = Inr bp"
  by (auto simp: write_string_def path_ok_def list_all_iff)

lemma read_string_encoded:
  assumes "write_string s = Inr bp" "path_ok s" "drop p d = bp @ rest"
  shows "read_string d p = (s, p + (length s + 1))"
proof -
  from assms(1) have bp: "bp = map (\<lambda>c. of_nat (of_char c)) s @ [0]"
    by (auto simp: write_string_def split: if_splits)
  have "read_string_loop (drop p d) = (map (\<lambda>c. of_nat (of_char c)) s, Suc (length s))"
    using read_string_loop_encoded [OF encode_nonzero [OF assms(2)], of rest] assms(3) bp
    by simp
  then show ?thesis
    by (simp add: read_string_def decode_encode [OF assms(2)])
qed

lemma decode_path_ok: "\<forall>b \<in> set bs. b \<noteq> 0 \<Longrightarrow> path_ok (decode_ascii_ignore bs)"
proof (induction bs)
  case Nil
  then show ?case by (simp add: path_ok_def decode_ascii_ignore_def)
next
  case (Cons b bs)
  then have IH: "path_ok (decode_ascii_ignore bs)" by simp
  show ?case
  proof (cases "unat b < 128")
    case True
    from Cons.prems have "b \<noteq> 0" by simp
    then have "0 < unat b" by (simp add: unat_gt_0)
    moreover have "of_char (char_of (unat b)) = unat b mod 256" by (simp add: of_char_of)
    ultimately have "0 < (of_char (char_of (unat b)) :: nat) \<and> (of_char (char_of (unat b)) :: nat) < 128"
      using True by simp
    with IH True show ?thesis by (simp add: path_ok_def decode_ascii_ignore_def)
  next
    case False
    with IH show ?thesis by (simp add: decode_ascii_ignore_def)
  qed
qed

lemma read_string_path_ok: "path_ok (fst (read_string d p))"
  using decode_path_ok [OF read_string_loop_nonzero, of "drop p d"]
  by (cases "read_string_loop (drop p d)") (simp add: read_string_def)

lemma bio_read_encoded:
  "drop p d = bs @ rest \<Longrightarrow> bio_read d p (length bs) = (bs, p + length bs)"
  by (simp add: bio_read_def)

lemma read_record_encoded:
  assumes bo: "write_uint32_be off = Inr bo" and bs: "write_uint32_be sz = Inr bs"
    and bp: "write_string nm = Inr bp" and ok: "path_ok nm"
    and d: "drop p d = (if big5 then [0] else []) @ bo @ bs @ bp @ rest"
  shows "read_record big5 d p
           = Inr (off, sz, nm, (if big5 then p + 1 else p) + 8 + (length nm + 1))"
    and "drop ((if big5 then p + 1 else p) + 8 + (length nm + 1)) d = rest"
proof -
  define p0 where "p0 = (if big5 then p + 1 else p)"
  have lo: "length bo = 4" and ls: "length bs = 4"
    using bo bs by (simp_all add: write_uint32_be_length)
  have d0: "drop p0 d = bo @ bs @ bp @ rest"
    using drop_app [of p d "if big5 then [0] else []" "bo @ bs @ bp @ rest"] d
    by (auto simp: p0_def split: if_splits)
  have r1: "bio_read d p0 4 = (bo, p0 + 4)"
    using bio_read_encoded [OF d0] lo by simp
  have d1: "drop (p0 + 4) d = bs @ bp @ rest"
    using drop_app [OF d0] lo by simp
  have r2: "bio_read d (p0 + 4) 4 = (bs, p0 + 4 + 4)"
    using bio_read_encoded [OF d1] ls by simp
  have d2: "drop (p0 + 4 + 4) d = bp @ rest"
    using drop_app [OF d1] ls by simp
  have r3: "read_string d (p0 + 4 + 4) = (nm, p0 + 4 + 4 + (length nm + 1))"
    by (rule read_string_encoded [OF bp ok d2])
  have "read_record big5 d p = Inr (off, sz, nm, p0 + 4 + 4 + (length nm + 1))"
    unfolding read_record_def Let_def p0_def [symmetric]
    by (simp only: r1 r2 r3 prod.case read_write_uint32_be [OF bo] read_write_uint32_be [OF bs]
        bind_e_def sum.case)
  then show "read_record big5 d p
           = Inr (off, sz, nm, (if big5 then p + 1 else p) + 8 + (length nm + 1))"
    by (simp add: p0_def)
  have "drop (p0 + 4 + 4 + length bp) d = rest"
    by (rule drop_app [OF d2])
  then show "drop ((if big5 then p + 1 else p) + 8 + (length nm + 1)) d = rest"
    using write_string_length [OF bp] by (simp add: p0_def add.assoc)
qed

lemma write_metadata_ConsD:
  assumes "write_metadata big5 (e # es) = Inr bm"
  obtains bo bs bp rest where
    "write_uint32_be (offset e) = Inr bo" "write_uint32_be (size_e e) = Inr bs"
    "write_string (path e) = Inr bp" "write_metadata big5 es = Inr rest"
    "bm = (if big5 then [0] else []) @ bo @ bs @ bp @ rest"
  using assms by (auto simp: bind_e_def split: sum.splits)

lemma read_entries_encoded:
  assumes "write_metadata big5 es = Inr bm" "list_all (\<lambda>e. path_ok (path e)) es"
    "drop p d = bm @ rest"
  shows "\<exists>a'. read_entries big5 d (length es) p a = (a', Inr ())
           \<and> header a' = header a
           \<and> map offset (entries a') = map offset (entries a) @ map offset es
           \<and> map size_e (entries a') = map size_e (entries a) @ map size_e es
           \<and> map path (entries a') = map path (entries a) @ map path es"
  using assms
proof (induction es arbitrary: bm p a)
  case Nil
  then show ?case by simp
next
  case (Cons e es)
  from Cons.prems(1) obtain bo bs bp rest' where
    w: "write_uint32_be (offset e) = Inr bo" "write_uint32_be (size_e e) = Inr bs"
       "write_string (path e) = Inr bp" "write_metadata big5 es = Inr rest'"
    and bm: "bm = (if big5 then [0] else []) @ bo @ bs @ bp @ rest'"
    by (rule write_metadata_ConsD)
  from Cons.prems(2) have ok: "path_ok (path e)" and oks: "list_all (\<lambda>e. path_ok (path e)) es"
    by simp_all
  let ?p' = "(if big5 then p + 1 else p) + 8 + (length (path e) + 1)"
  from Cons.prems(3) bm
  have d: "drop p d = (if big5 then [0] else []) @ bo @ bs @ bp @ (rest' @ rest)" by simp
  have rr: "read_record big5 d p = Inr (offset e, size_e e, path e, ?p')"
    and d': "drop ?p' d = rest' @ rest"
    using read_record_encoded [OF w(1) w(2) w(3) ok d] by blast+
  let ?a = "a\<lparr>entries := entries a @
                  [\<lparr>ident = next_ident a, offset = offset e, size_e = size_e e, path = path e,
                    data = None, modified = False\<rparr>],
               next_ident := Suc (next_ident a)\<rparr>"
  from Cons.IH [OF w(4) oks d', of ?a] obtain a' where
    a': "read_entries big5 d (length es) ?p' ?a = (a', Inr ())" "header a' = header ?a"
      "map offset (entries a') = map offset (entries ?a) @ map offset es"
      "map size_e (entries a') = map size_e (entries ?a) @ map size_e es"
      "map path (entries a') = map path (entries ?a) @ map path es"
    by blast
  have "read_entries big5 d (length (e # es)) p a = (a', Inr ())"
    using rr a'(1) by simp
  with a'(2-5) show ?case by simp
qed

lemma read_entries_facts:
  "read_entries big5 d n p a = (a', Inr ()) \<Longrightarrow>
     length (entries a') = length (entries a) + n
     \<and> header a' = header a
     \<and> (list_all (\<lambda>e. path_ok (path e) \<and> size_e e < 2 ^ 32) (entries a)
          \<longrightarrow> list_all (\<lambda>e. path_ok (path e) \<and> size_e e < 2 ^ 32) (entries a'))"
proof (induction n arbitrary: p a)
  case 0
  then show ?case by simp
next
  case (Suc n)
  from Suc.prems obtain off sz nm p' where
    rr: "read_record big5 d p = Inr (off, sz, nm, p')"
    by (auto split: sum.splits)
  let ?a = "a\<lparr>entries := entries a @
                  [\<lparr>ident = next_ident a, offset = off, size_e = sz, path = nm,
                    data = None, modified = False\<rparr>],
               next_ident := Suc (next_ident a)\<rparr>"
  from Suc.prems rr have re: "read_entries big5 d n p' ?a = (a', Inr ())" by simp
  from rr have "sz < 2 ^ 32"
    by (auto simp: read_record_def Let_def bind_e_def
        split: prod.splits sum.splits dest: read_uint32_be_bound)
  moreover from rr have "\<exists>q. nm = fst (read_string d q)"
    by (auto simp: read_record_def Let_def bind_e_def split: prod.splits sum.splits)
      (metis fst_conv)
  then have "path_ok nm"
    using read_string_path_ok by auto
  ultimately have "sz < 2 ^ 32" "path_ok nm" by simp_all
  with Suc.IH [OF re] show ?case by simp
qed

lemma update_offsets_fields:
  "update_offsets cur es0 = (es, fin) \<Longrightarrow>
     map size_e es = map size_e es0 \<and> map path es = map path es0
     \<and> map data es = map data es0 \<and> map ident es = map ident es0
     \<and> map modified es = map modified es0 \<and> length es = length es0"
  by (induction es0 arbitrary: cur es) (auto split: prod.splits)

lemma update_offsets_bounds:
  "update_offsets cur es0 = (es, fin) \<Longrightarrow>
     cur \<le> fin \<and> list_all (\<lambda>e. cur \<le> offset e \<and> offset e + size_e e \<le> fin) es"
proof (induction es0 arbitrary: cur es)
  case Nil
  then show ?case by simp
next
  case (Cons e es0)
  from Cons.prems obtain es' where
    u: "update_offsets (cur + size_e e) es0 = (es', fin)" and es: "es = e\<lparr>offset := cur\<rparr> # es'"
    by (auto split: prod.splits)
  from Cons.IH [OF u] have "cur + size_e e \<le> fin"
    and "list_all (\<lambda>x. cur + size_e e \<le> offset x \<and> offset x + size_e x \<le> fin) es'"
    by simp_all
  then show ?case
    unfolding es by (auto simp: list_all_iff)
qed

lemma update_offsets_disjoint:
  "update_offsets cur es0 = (es, fin) \<Longrightarrow>
     \<forall>j < length es. \<forall>i < j. offset (es ! i) + size_e (es ! i) \<le> offset (es ! j)"
proof (induction es0 arbitrary: cur es)
  case Nil
  then show ?case by simp
next
  case (Cons e es0)
  from Cons.prems obtain es' where
    u: "update_offsets (cur + size_e e) es0 = (es', fin)" and es: "es = e\<lparr>offset := cur\<rparr> # es'"
    by (auto split: prod.splits)
  from update_offsets_bounds [OF u]
  have lo: "\<forall>x \<in> set es'. cur + size_e e \<le> offset x" by (simp add: list_all_iff)
  show ?case
  proof (intro allI impI)
    fix j i assume j: "j < length es" and i: "i < j"
    from i obtain j' where j': "j = Suc j'" by (cases j) auto
    with j es have mem: "es' ! j' \<in> set es'" by simp
    show "offset (es ! i) + size_e (es ! i) \<le> offset (es ! j)"
    proof (cases i)
      case 0
      with lo mem show ?thesis by (simp add: es j')
    next
      case (Suc i')
      with i j j' es have "j' < length es'" "i' < j'" by simp_all
      with Cons.IH [OF u] show ?thesis by (simp add: es j' Suc)
    qed
  qed
qed

lemma update_offsets_total:
  "update_offsets cur es0 = (es, fin) \<Longrightarrow> fin = cur + sum_list (map size_e es0)"
proof (induction es0 arbitrary: cur es)
  case Nil
  then show ?case by simp
next
  case (Cons e es0)
  from Cons.prems obtain es' where
    u: "update_offsets (cur + size_e e) es0 = (es', fin)"
    by (auto split: prod.splits)
  from Cons.IH [OF u] show ?case by simp
qed

lemma metadata_size_eq:
  "metadata_size big5 cur es
     = cur + sum_list (map (\<lambda>e. (if big5 then 1 else 0) + 8 + (length (path e) + 1)) es)"
  by (induction es arbitrary: cur) auto

lemma write_metadata_length:
  "write_metadata big5 es = Inr bm \<Longrightarrow>
     length bm = sum_list (map (\<lambda>e. (if big5 then 1 else 0) + 8 + (length (path e) + 1)) es)"
proof (induction es arbitrary: bm)
  case Nil
  then show ?case by simp
next
  case (Cons e es)
  from Cons.prems obtain bo bs bp rest where
    w: "write_uint32_be (offset e) = Inr bo" "write_uint32_be (size_e e) = Inr bs"
       "write_string (path e) = Inr bp" "write_metadata big5 es = Inr rest"
    and bm: "bm = (if big5 then [0] else []) @ bo @ bs @ bp @ rest"
    by (rule write_metadata_ConsD)
  from w(1,2,3) have "length bo = 4" "length bs = 4" "length bp = length (path e) + 1"
    by (simp_all add: write_uint32_be_length write_string_length)
  with Cons.IH [OF w(4)] show ?case by (simp add: bm)
qed

lemma write_metadata_ok:
  "list_all (\<lambda>e. offset e < 2 ^ 32 \<and> size_e e < 2 ^ 32 \<and> path_ok (path e)) es
     \<Longrightarrow> \<exists>bm. write_metadata big5 es = Inr bm"
proof (induction es)
  case Nil
  then show ?case by simp
next
  case (Cons e es)
  then obtain rest where "write_metadata big5 es = Inr rest" by auto
  moreover from Cons.prems obtain bp where "write_string (path e) = Inr bp"
    using write_string_ok [of "path e"] by auto
  moreover from Cons.prems have "offset e < 2 ^ 32" "size_e e < 2 ^ 32" by simp_all
  ultimately show ?case
    by (simp add: bind_e_def write_uint32_be_def)
qed

lemma payload_roundtrip:
  "update_offsets (length pre) es0 = (es, fin) \<Longrightarrow>
   list_all (\<lambda>e. \<exists>x. data e = Some x \<and> length x = size_e e) es0 \<Longrightarrow>
   \<exists>bd. write_data es = Inr bd \<and> length bd = sum_list (map size_e es0)
     \<and> map (\<lambda>e. Some (take (size_e e) (drop (offset e) (pre @ bd)))) es = map data es0"
proof (induction es0 arbitrary: pre es)
  case Nil
  then show ?case by simp
next
  case (Cons e es0)
  from Cons.prems(1) obtain es' where
    u: "update_offsets (length pre + size_e e) es0 = (es', fin)"
    and es: "es = e\<lparr>offset := length pre\<rparr> # es'"
    by (auto split: prod.splits)
  from Cons.prems(2) obtain x where x: "data e = Some x" "length x = size_e e"
    and rest: "list_all (\<lambda>e. \<exists>x. data e = Some x \<and> length x = size_e e) es0"
    by auto
  from u x(2) have u': "update_offsets (length (pre @ x)) es0 = (es', fin)" by simp
  from Cons.IH [OF u' rest] obtain bd where
    bd: "write_data es' = Inr bd" "length bd = sum_list (map size_e es0)"
      "map (\<lambda>e. Some (take (size_e e) (drop (offset e) ((pre @ x) @ bd)))) es' = map data es0"
    by blast
  have "write_data es = Inr (x @ bd)"
    using bd(1) x(1) by (simp add: es bind_e_def)
  moreover have "length (x @ bd) = sum_list (map size_e (e # es0))"
    using bd(2) x(2) by simp
  moreover have "map (\<lambda>e. Some (take (size_e e) (drop (offset e) (pre @ x @ bd)))) es
                  = map data (e # es0)"
    using bd(3) x by (simp add: es)
  ultimately show ?case by blast
qed

lemma read_uint32_le_length: "read_uint32_le bs = Inr v \<Longrightarrow> length bs = 4"
  by (auto simp: read_uint32_le_def split: if_splits)

lemma read_uint32_be_length: "read_uint32_be bs = Inr v \<Longrightarrow> length bs = 4"
  by (auto simp: read_uint32_be_def split: if_splits)

lemma load_eq:
  assumes "take 3 (take 4 d) = BIG"
    and "read_uint32_le (take 4 (drop 4 d)) = Inr fs"
    and "read_uint32_be (take 4 (drop 8 d)) = Inr cnt"
  shows "load a0 (Some d) =
     (case read_entries (take 4 d = BIG5) d cnt (if take 4 d = BIG5 then 15 else 16)
             (a0\<lparr>original_data := Some d, header := Some (take 4 d), file_size := fs\<rparr>) of
        (a3, Inl e) \<Rightarrow> (a3, Inl e)
      | (a3, Inr u) \<Rightarrow> (a3\<lparr>entries := map (load_data d) (entries a3)\<rparr>, Inr ()))"
proof -
  have l1: "length (take 4 (drop 4 d)) = 4" by (rule read_uint32_le_length [OF assms(2)])
  have l2: "length (take 4 (drop 8 d)) = 4" by (rule read_uint32_be_length [OF assms(3)])
  have r1: "bio_read d 4 4 = (take 4 (drop 4 d), 8)"
    unfolding bio_read_def l1 by simp
  have r2: "bio_read d 8 4 = (take 4 (drop 8 d), 12)"
    unfolding bio_read_def l2 by simp
  have "load a0 (Some d) =
     (case read_entries (take 4 d = BIG5) d cnt (if take 4 d = BIG5 then 12 + 3 else 12 + 4)
             (a0\<lparr>original_data := Some d, header := Some (take 4 d), file_size := fs\<rparr>) of
        (a3, Inl e) \<Rightarrow> (a3, Inl e)
      | (a3, Inr u) \<Rightarrow> (a3\<lparr>entries := map (load_data d) (entries a3)\<rparr>, Inr ()))"
    unfolding load_def Let_def option.case r1 fst_conv snd_conv assms(2) sum.case r2 assms(3)
    using assms(1) by (simp only: if_False simp_thms)
  then show ?thesis by (simp only: numeral_plus_numeral arith_simps)
qed

lemma load_bad_magic:
  "take 3 (take 4 d) \<noteq> BIG \<Longrightarrow>
     load a0 (Some d) = (a0\<lparr>original_data := Some d, header := Some (take 4 d)\<rparr>, Inl ValueError)"
  unfolding load_def Let_def option.case by (simp only: if_True simp_thms)

lemma load_le_fail:
  assumes "take 3 (take 4 d) = BIG" "read_uint32_le (take 4 (drop 4 d)) = Inl e"
  shows "load a0 (Some d) = (a0\<lparr>original_data := Some d, header := Some (take 4 d)\<rparr>, Inl e)"
proof -
  have r1: "fst (bio_read d 4 4) = take 4 (drop 4 d)" by (simp add: bio_read_def)
  show ?thesis
    unfolding load_def Let_def option.case r1 assms(2) sum.case
    using assms(1) by (simp only: if_False simp_thms)
qed

lemma load_be_fail:
  assumes "take 3 (take 4 d) = BIG" "read_uint32_le (take 4 (drop 4 d)) = Inr fs"
    "read_uint32_be (take 4 (drop 8 d)) = Inl e"
  shows "load a0 (Some d)
     = (a0\<lparr>original_data := Some d, header := Some (take 4 d), file_size := fs\<rparr>, Inl e)"
proof -
  have l1: "length (take 4 (drop 4 d)) = 4" by (rule read_uint32_le_length [OF assms(2)])
  have r1: "bio_read d 4 4 = (take 4 (drop 4 d), 8)"
    unfolding bio_read_def l1 by simp
  have r2: "fst (bio_read d 8 4) = take 4 (drop 8 d)" by (simp add: bio_read_def)
  show ?thesis
    unfolding load_def Let_def option.case r1 fst_conv snd_conv assms(2) sum.case r2 assms(3)
    using assms(1) by (simp only: if_False simp_thms)
qed

lemma load_InrD:
  assumes "load a0 (Some d) = (a, Inr ())"
  obtains fs cnt a3 where
    "take 3 (take 4 d) = BIG"
    "read_uint32_le (take 4 (drop 4 d)) = Inr fs"
    "read_uint32_be (take 4 (drop 8 d)) = Inr cnt"
    "read_entries (take 4 d = BIG5) d cnt (if take 4 d = BIG5 then 15 else 16)
       (a0\<lparr>original_data := Some d, header := Some (take 4 d), file_size := fs\<rparr>) = (a3, Inr ())"
    "a = a3\<lparr>entries := map (load_data d) (entries a3)\<rparr>"
proof -
  have m: "take 3 (take 4 d) = BIG"
    using assms load_bad_magic [of d a0] by (cases "take 3 (take 4 d) = BIG") simp_all
  obtain fs where fs: "read_uint32_le (take 4 (drop 4 d)) = Inr fs"
    using assms load_le_fail [OF m, of _ a0]
    by (cases "read_uint32_le (take 4 (drop 4 d))") simp_all
  obtain cnt where cnt: "read_uint32_be (take 4 (drop 8 d)) = Inr cnt"
    using assms load_be_fail [OF m fs, of _ a0]
    by (cases "read_uint32_be (take 4 (drop 8 d))") simp_all
  let ?r = "read_entries (take 4 d = BIG5) d cnt (if take 4 d = BIG5 then 15 else 16)
       (a0\<lparr>original_data := Some d, header := Some (take 4 d), file_size := fs\<rparr>)"
  obtain a3 r where r: "?r = (a3, r)" by (cases ?r) auto
  from assms have "(case ?r of (a3, Inl e) \<Rightarrow> (a3, Inl e)
      | (a3, Inr u) \<Rightarrow> (a3\<lparr>entries := map (load_data d) (entries a3)\<rparr>, Inr ())) = (a, Inr ())"
    by (simp only: load_eq [OF m fs cnt, of a0])
  then have "r = Inr ()" "a = a3\<lparr>entries := map (load_data d) (entries a3)\<rparr>"
    unfolding r by (cases r; simp)+
  with m fs cnt r that show thesis by blast
qed

lemma map_offset_size_cong:
  "map offset xs = map offset ys \<Longrightarrow> map size_e xs = map size_e ys \<Longrightarrow>
     map (\<lambda>e. g (offset e) (size_e e)) xs = map (\<lambda>e. g (offset e) (size_e e)) ys"
proof (induction xs arbitrary: ys)
  case Nil
  then show ?case by simp
next
  case (Cons x xs)
  then obtain y ys' where "ys = y # ys'" by (cases ys) auto
  with Cons show ?case by simp
qed

lemma regions_consistent_cong:
  assumes "map offset xs = map offset ys" "map size_e xs = map size_e ys"
  shows "regions_consistent n xs = regions_consistent n ys"
proof -
  have len: "length xs = length ys" using assms(1) by (rule map_eq_imp_length_eq)
  have o: "offset (xs ! i) = offset (ys ! i)" if "i < length ys" for i
    using that len assms(1) by (metis nth_map)
  have s: "size_e (xs ! i) = size_e (ys ! i)" if "i < length ys" for i
    using that len assms(2) by (metis nth_map)
  have 1: "list_all (\<lambda>e. offset e + size_e e \<le> n) xs = list_all (\<lambda>e. offset e + size_e e \<le> n) ys"
    unfolding list_all_length len using o s by auto
  have 2: "(\<forall>j < length xs. \<forall>i < j. offset (xs ! i) + size_e (xs ! i) \<le> offset (xs ! j))
       = (\<forall>j < length ys. \<forall>i < j. offset (ys ! i) + size_e (ys ! i) \<le> offset (ys ! j))"
    unfolding len using o s by (auto dest: less_trans)
  show ?thesis
    unfolding regions_consistent_def 1 2 ..
qed

lemma list_all_via_map:
  "map f xs = map f ys \<Longrightarrow> list_all (\<lambda>e. P (f e)) xs = list_all (\<lambda>e. P (f e)) ys"
proof -
  assume "map f xs = map f ys"
  then have "list_all P (map f xs) = list_all P (map f ys)" by simp
  then show ?thesis by (simp add: list.pred_map comp_def)
qed

lemma sum_list_via_map:
  "map f xs = map f ys \<Longrightarrow> sum_list (map (\<lambda>e. g (f e)) xs) = sum_list (map (\<lambda>e. (g (f e) :: nat)) ys)"
proof -
  assume "map f xs = map f ys"
  then have "sum_list (map g (map f xs)) = sum_list (map g (map f ys))" by simp
  then show ?thesis by (simp add: comp_def)
qed

lemma write_uint32_le_length: "write_uint32_le v = Inr bs \<Longrightarrow> length bs = 4"
  by (auto simp: write_uint32_le_def split: if_splits)

lemma load_data_fields:
  "map offset (map (load_data d) es) = map offset es"
  "map size_e (map (load_data d) es) = map size_e es"
  "map path (map (load_data d) es) = map path es"
  "map data (map (load_data d) es) = map (\<lambda>e. Some (take (size_e e) (drop (offset e) d))) es"
  by (simp_all add: load_data_def)

lemma layout_eq:
  "header a = Some h \<Longrightarrow>
     layout a = update_offsets (metadata_size (h = BIG5) (if h = BIG5 then 15 else 16) (entries a))
                  (entries a)"
  by (simp add: layout_def Let_def)

lemma save_ok:
  assumes "header a = Some h" "layout a = (es, tot)"
    "write_uint32_le tot = Inr bt" "write_uint32_be (length es) = Inr bc"
    "write_metadata (h = BIG5) es = Inr bm" "write_data es = Inr bd"
  shows "save a True = (a\<lparr>entries := es\<rparr>,
           Inr (h @ bt @ bc @ (if h = BIG5 then [0, 0, 0] else [0, 0, 0, 0]) @ bm @ bd))"
  using assms by (simp add: save_def Let_def bind_e_def)

text \<open>
  Claim C1. For every well-formed archive \<open>B\<close>: loading \<open>B\<close> into a fresh archive,
  saving at once and loading the written bytes again succeeds, and the reloaded entry
  list has the same paths, sizes and payload bytes as the load of \<open>B\<close>, in the same
  order; the new offsets are consistent: every \<open>offset + size\<close> lies within the
  written file and the payload regions do not overlap.
\<close>

theorem round_trip:
  assumes wf: "well_formed B"
  shows "\<exists>a a2 B' a'.
           load BIGArchive_init (Some B) = (a, Inr ())
         \<and> save a True = (a2, Inr B')
         \<and> load BIGArchive_init (Some B') = (a', Inr ())
         \<and> map path (entries a') = map path (entries a)
         \<and> map size_e (entries a') = map size_e (entries a)
         \<and> map data (entries a') = map data (entries a)
         \<and> regions_consistent (length B') (entries a')"
proof -
  obtain a r where l: "load BIGArchive_init (Some B) = (a, r)"
    by (cases "load BIGArchive_init (Some B)") auto
  from wf l have r: "r = Inr ()"
    and inb: "list_all (\<lambda>e. offset e + size_e e \<le> length B) (entries a)"
    and fit: "snd (layout a) < 2 ^ 32"
    by (simp_all add: well_formed_def)
  define h where "h = take 4 B"
  define big5 where "big5 = (h = BIG5)"
  from l r obtain fs cnt a3 where
    m: "take 3 h = BIG"
    and fs: "read_uint32_le (take 4 (drop 4 B)) = Inr fs"
    and cnt: "read_uint32_be (take 4 (drop 8 B)) = Inr cnt"
    and re: "read_entries big5 B cnt (if big5 then 15 else 16)
       (BIGArchive_init\<lparr>original_data := Some B, header := Some h, file_size := fs\<rparr>) = (a3, Inr ())"
    and a: "a = a3\<lparr>entries := map (load_data B) (entries a3)\<rparr>"
    unfolding h_def big5_def by (auto elim: load_InrD)
  have lenh: "length h = 4"
    using read_uint32_le_length [OF fs] unfolding h_def by simp
  from read_entries_facts [OF re]
  have len3: "length (entries a3) = cnt" and h3: "header a3 = Some h"
    and ok3: "list_all (\<lambda>e. path_ok (path e) \<and> size_e e < 2 ^ 32) (entries a3)"
    by (simp_all add: BIGArchive_init_def)
  have cntb: "cnt < 2 ^ 32" by (rule read_uint32_be_bound [OF cnt])
  define es0 where "es0 = entries a"
  have es0: "es0 = map (load_data B) (entries a3)" by (simp add: es0_def a)
  have ha: "header a = Some h" by (simp add: a h3)
  have len0: "length es0 = cnt" by (simp add: es0 len3)
  have p0: "list_all (\<lambda>e. path_ok (path e)) es0"
    using ok3 by (simp add: es0 list_all_iff load_data_def)
  have s0: "list_all (\<lambda>e. size_e e < 2 ^ 32) es0"
    using ok3 by (simp add: es0 list_all_iff load_data_def)
  have d0: "list_all (\<lambda>e. \<exists>x. data e = Some x \<and> length x = size_e e) es0"
    using inb unfolding es0_def [symmetric] by (auto simp: es0 list_all_iff load_data_def)
  define start where "start = metadata_size big5 (if big5 then 15 else 16) es0"
  obtain es tot where lay: "update_offsets start es0 = (es, tot)"
    by (cases "update_offsets start es0") auto
  have layout: "layout a = (es, tot)"
    using layout_eq [OF ha] lay by (simp add: start_def big5_def es0_def)
  from fit layout have totb: "tot < 2 ^ 32" by simp
  note f = update_offsets_fields [OF lay]
  from update_offsets_bounds [OF lay]
  have bnd: "list_all (\<lambda>e. start \<le> offset e \<and> offset e + size_e e \<le> tot) es" by simp
  have ps: "list_all (\<lambda>e. path_ok (path e)) es"
    using p0 list_all_via_map [of path es es0 path_ok] f by simp
  have ss: "list_all (\<lambda>e. size_e e < 2 ^ 32) es"
    using s0 list_all_via_map [of size_e es es0 "\<lambda>n. n < 2 ^ 32"] f by simp
  have "list_all (\<lambda>e. offset e < 2 ^ 32 \<and> size_e e < 2 ^ 32 \<and> path_ok (path e)) es"
    using bnd ps ss totb by (auto simp: list_all_iff)
  then obtain bm where bm: "write_metadata big5 es = Inr bm"
    using write_metadata_ok by blast
  have lbm: "start = (if big5 then 15 else 16) + length bm"
    unfolding start_def metadata_size_eq write_metadata_length [OF bm]
    using sum_list_via_map [of path es es0 "\<lambda>p. (if big5 then 1 else 0) + 8 + (length p + 1)"] f
    by simp
  obtain bt where bt: "write_uint32_le tot = Inr bt"
    using totb by (simp add: write_uint32_le_def)
  obtain bc where bc: "write_uint32_be (length es) = Inr bc"
    using cntb len0 f by (simp add: write_uint32_be_def)
  have lbt: "length bt = 4" by (rule write_uint32_le_length [OF bt])
  have lbc: "length bc = 4" by (rule write_uint32_be_length [OF bc])
  define res :: "byte list" where "res = (if big5 then [0, 0, 0] else [0, 0, 0, 0])"
  define pre where "pre = h @ bt @ bc @ res @ bm"
  have lpre: "length pre = start"
    by (simp add: pre_def lenh lbt lbc res_def lbm)
  from lay lpre have lay': "update_offsets (length pre) es0 = (es, tot)" by simp
  from payload_roundtrip [OF lay' d0] obtain bd where
    bd: "write_data es = Inr bd" and lbd: "length bd = sum_list (map size_e es0)"
    and pay: "map (\<lambda>e. Some (take (size_e e) (drop (offset e) (pre @ bd)))) es = map data es0"
    by blast
  define B' where "B' = pre @ bd"
  have B': "B' = h @ bt @ bc @ res @ bm @ bd" by (simp add: B'_def pre_def)
  have sv: "save a True = (a\<lparr>entries := es\<rparr>, Inr B')"
    using save_ok [OF ha layout bt bc bm [unfolded big5_def] bd]
    by (simp add: B' res_def big5_def)
  have lenB': "length B' = tot"
    using update_offsets_total [OF lay] by (simp add: B'_def lpre lbd)
  \<comment> \<open>reading the written file\<close>
  have t4: "take 4 B' = h" by (simp add: B' lenh)
  have t48: "take 4 (drop 4 B') = bt" by (simp add: B' lenh lbt)
  have t812: "take 4 (drop 8 B') = bc" by (simp add: B' lenh lbt lbc)
  have dm: "drop (if big5 then 15 else 16) B' = bm @ bd"
    by (simp add: B' lenh lbt lbc res_def)
  define a0' where
    "a0' = BIGArchive_init\<lparr>original_data := Some B', header := Some h, file_size := tot\<rparr>"
  from read_entries_encoded [OF bm ps dm, of a0'] obtain a3' where
    re': "read_entries big5 B' (length es) (if big5 then 15 else 16) a0' = (a3', Inr ())"
    and o3: "map offset (entries a3') = map offset es"
    and s3: "map size_e (entries a3') = map size_e es"
    and p3: "map path (entries a3') = map path es"
    by (auto simp: a0'_def BIGArchive_init_def)
  define a' where "a' = a3'\<lparr>entries := map (load_data B') (entries a3')\<rparr>"
  have m': "take 3 (take 4 B') = BIG" by (simp only: t4 m)
  have fs': "read_uint32_le (take 4 (drop 4 B')) = Inr tot"
    by (simp only: t48 read_write_uint32_le [OF bt])
  have cnt': "read_uint32_be (take 4 (drop 8 B')) = Inr (length es)"
    by (simp only: t812 read_write_uint32_be [OF bc])
  have ld: "load BIGArchive_init (Some B') = (a', Inr ())"
    unfolding load_eq [OF m' fs' cnt', of BIGArchive_init] t4 big5_def [symmetric]
      a0'_def [symmetric] re'
    by (simp add: a'_def)
  have ea': "entries a' = map (load_data B') (entries a3')" by (simp add: a'_def)
  have c1: "map path (entries a') = map path (entries a)"
    unfolding ea' load_data_fields p3 es0_def [symmetric] using f by simp
  have c2: "map size_e (entries a') = map size_e (entries a)"
    unfolding ea' load_data_fields s3 es0_def [symmetric] using f by simp
  have c3: "map data (entries a') = map data (entries a)"
    unfolding ea' load_data_fields es0_def [symmetric]
    using map_offset_size_cong [OF o3 s3, of "\<lambda>off sz. Some (take sz (drop off B'))"] pay
    by (simp add: B'_def)
  have "regions_consistent tot es"
    unfolding regions_consistent_def
    using bnd update_offsets_disjoint [OF lay] by (auto simp: list_all_iff)
  moreover have "map offset (entries a') = map offset es" "map size_e (entries a') = map size_e es"
    unfolding ea' load_data_fields by (rule o3, rule s3)
  ultimately have c4: "regions_consistent (length B') (entries a')"
    using regions_consistent_cong [of "entries a'" es tot] by (simp add: lenB')
  from l r sv ld c1 c2 c3 c4 show ?thesis by blast
qed

lemma char_of_a: "char_of (97::nat) = CHR ''a''" "char_of (98::nat) = CHR ''b''"
  using char_of_char [of "CHR ''a''", where ?'a = nat] char_of_char [of "CHR ''b''", where ?'a = nat]
  by simp_all

lemma read_entries_numeral:
  "read_entries big5 d (numeral k) p a =
     (case read_record big5 d p of
        Inl e \<Rightarrow> (a, Inl e)
      | Inr (off, sz, nm, p') \<Rightarrow>
          read_entries big5 d (pred_numeral k) p'
            (a\<lparr>entries := entries a @
                  [\<lparr>ident = next_ident a, offset = off, size_e = sz, path = nm,
                    data = None, modified = False\<rparr>],
               next_ident := Suc (next_ident a)\<rparr>))"
  by (simp add: numeral_eq_Suc)

lemma rs: "read_string gap_archive 24 = (''a'', 26)"
  by (simp add: read_string_def gap_archive_def decode_ascii_ignore_def char_of_a)

lemma rr1: "read_record False gap_archive 16 = Inr (37, 1, ''a'', 26)"
  by (simp add: read_record_def bio_read_def read_uint32_be_def bind_e_def read_string_def
      gap_archive_def decode_ascii_ignore_def char_of_a)

lemma ld_gap:
  "load BIGArchive_init (Some gap_archive) =
     (\<lparr>header = Some BIGF, file_size = 40,
       entries = [\<lparr>ident = 0, offset = 37, size_e = 1, path = ''a'', data = Some [0x2A], modified = False\<rparr>,
                  \<lparr>ident = 1, offset = 38, size_e = 2, path = ''b'', data = Some [7, 8], modified = False\<rparr>],
       original_data = Some gap_archive, next_ident = 2\<rparr>, Inr ())"
  by (simp add: load_def Let_def bio_read_def read_uint32_le_def read_uint32_be_def
      read_record_def bind_e_def read_string_def decode_ascii_ignore_def char_of_a load_data_def
      BIGArchive_init_def BIG_def BIG5_def BIGF_def gap_archive_def read_entries_numeral)

lemma load_gap_archive: "load BIGArchive_init (Some gap_archive) = (gap_loaded, Inr ())"
  by (simp add: ld_gap gap_loaded_def)

lemma layout_gap_loaded:
  "layout gap_loaded =
     ([\<lparr>ident = 0, offset = 36, size_e = 1, path = ''a'', data = Some [0x2A], modified = False\<rparr>,
       \<lparr>ident = 1, offset = 37, size_e = 2, path = ''b'', data = Some [7, 8], modified = False\<rparr>], 39)"
  by (simp add: layout_def gap_loaded_def BIGF_def BIG5_def)

lemma well_formed_gap_archive: "well_formed gap_archive"
  unfolding well_formed_def load_gap_archive prod.case layout_gap_loaded
  by (simp add: gap_loaded_def gap_archive_def)

theorem round_trip_witness:
  "well_formed gap_archive
   \<and> (\<exists>a a2 B' a'.
           load BIGArchive_init (Some gap_archive) = (a, Inr ())
         \<and> save a True = (a2, Inr B')
         \<and> load BIGArchive_init (Some B') = (a', Inr ())
         \<and> map path (entries a') = map path (entries a)
         \<and> map size_e (entries a') = map size_e (entries a)
         \<and> map data (entries a') = map data (entries a)
         \<and> regions_consistent (length B') (entries a'))"
  using round_trip [OF well_formed_gap_archive] well_formed_gap_archive by blast

subsection \<open>A failed save\<close>

text \<open>
  Claim C2, as stated, fails: the archive loaded from \<open>gap_archive\<close> has the offsets
  37 and 38; a save to an unwritable path raises \<open>IOError\<close> and leaves 36 and 37.
\<close>

theorem save_offsets_counterexample:
  "snd (load BIGArchive_init (Some gap_archive)) = Inr ()
   \<and> snd (save (fst (load BIGArchive_init (Some gap_archive))) False) = Inl IOError
   \<and> map offset (entries (fst (load BIGArchive_init (Some gap_archive)))) = [37, 38]
   \<and> map offset (entries (fst (save (fst (load BIGArchive_init (Some gap_archive))) False))) = [36, 37]"
  unfolding load_gap_archive fst_conv snd_conv
  by (simp add: save_def layout_gap_loaded) (simp add: gap_loaded_def)

text \<open>
  Claim C2, amended. \<open>save\<close> assigns every entry its recomputed offset before the
  destination is opened: whatever the outcome, the archive after the call is the
  archive with the offsets of the new layout, for all entries at once; a save that
  fails (for example on an unwritable path) leaves the same offsets as one that
  succeeds, and they are not restored.
\<close>

theorem save_commits_offsets_first:
  "fst (save a writable) = a\<lparr>entries := fst (layout a)\<rparr>
   \<and> fst (save a False) = fst (save a True)
   \<and> snd (save a False) = Inl IOError"
  by (simp add: save_def Let_def split: prod.splits)

theorem save_commits_offsets_first_witness:
  "fst (save gap_loaded False) = gap_loaded\<lparr>entries := fst (layout gap_loaded)\<rparr>
   \<and> map offset (entries (fst (save gap_loaded False))) = [36, 37]
   \<and> snd (save gap_loaded False) = Inl IOError"
  using save_commits_offsets_first [of gap_loaded False]
  by (simp add: layout_gap_loaded)

subsection \<open>The magic check\<close>

lemma read_uint32_le_error: "read_uint32_le d = Inl e \<Longrightarrow> e = StructError"
  by (auto simp: read_uint32_le_def split: if_splits)

lemma read_uint32_be_error: "read_uint32_be d = Inl e \<Longrightarrow> e = StructError"
  by (auto simp: read_uint32_be_def split: if_splits)

lemma read_record_error: "read_record big5 d p = Inl e \<Longrightarrow> e = StructError"
  by (auto simp: read_record_def Let_def bind_e_def
      split: prod.splits sum.splits dest: read_uint32_be_error)

lemma read_entries_error:
  "read_entries big5 d n p a = (a', Inl e) \<Longrightarrow> e = StructError"
proof (induction n arbitrary: p a)
  case 0
  then show ?case by simp
next
  case (Suc n)
  show ?case
  proof (cases "read_record big5 d p")
    case (Inl e')
    with Suc.prems show ?thesis by (auto dest: read_record_error)
  next
    case (Inr t)
    obtain off sz nm p' where "t = (off, sz, nm, p')" by (cases t) auto
    with Inr Suc.prems Suc.IH show ?thesis by auto
  qed
qed

lemma load_error_after_magic:
  assumes m: "take 3 (take 4 d) = BIG" and l: "snd (load a0 (Some d)) = Inl e"
  shows "e = StructError"
proof (cases "read_uint32_le (take 4 (drop 4 d))")
  case (Inl e1)
  with l load_le_fail [OF m Inl, of a0] show ?thesis by (auto dest: read_uint32_le_error)
next
  case fs: (Inr fs)
  show ?thesis
  proof (cases "read_uint32_be (take 4 (drop 8 d))")
    case (Inl e2)
    with l load_be_fail [OF m fs Inl, of a0] show ?thesis by (auto dest: read_uint32_be_error)
  next
    case cnt: (Inr cnt)
    let ?r = "read_entries (take 4 d = BIG5) d cnt (if take 4 d = BIG5 then 15 else 16)
       (a0\<lparr>original_data := Some d, header := Some (take 4 d), file_size := fs\<rparr>)"
    obtain a3 r where r: "?r = (a3, r)" by (cases ?r) auto
    from l have "snd (case ?r of (a3, Inl e) \<Rightarrow> (a3, Inl e)
      | (a3, Inr u) \<Rightarrow> (a3\<lparr>entries := map (load_data d) (entries a3)\<rparr>, Inr ())) = Inl e"
      by (simp only: load_eq [OF m fs cnt, of a0])
    then have "r = Inl e" unfolding r by (cases r) simp_all
    with r show ?thesis by (auto dest: read_entries_error)
  qed
qed

text \<open>
  Claim C3, as stated, fails: the first four bytes of \<open>bigx_archive\<close> are \<open>BIGX\<close>,
  none of the three recognized magics, and \<open>load\<close> accepts it.
\<close>

theorem load_magic_counterexample:
  "take 4 bigx_archive \<notin> {BIG4, BIGF, BIG5}
   \<and> snd (load BIGArchive_init (Some bigx_archive)) = Inr ()"
  by (simp add: load_def Let_def bio_read_def read_uint32_le_def read_uint32_be_def
      BIGArchive_init_def BIG_def BIG5_def BIGF_def BIG4_def bigx_archive_def)

text \<open>
  Claim C3, amended. \<open>load\<close> checks only that the input starts with the three bytes
  \<open>BIG\<close>. An input that does not is rejected with \<open>ValueError\<close> before anything is
  parsed: the entry list and \<open>file_size\<close> are as before the call (\<open>original_data\<close>
  and \<open>header\<close> have been assigned). An input that does is never rejected on magic
  grounds, whatever its fourth byte, and any failure after the check is a
  \<open>struct.error\<close>. Once the size and the count have been read, the header \<open>BIG5\<close>
  selects the BIG5 layout (the records start at byte 15, each after one skipped byte)
  and every other header the BIG4/BIGF layout (the records start at byte 16, back to
  back); \<open>load\<close> then is the reading of the records in that layout followed by the
  reading of the payloads. The three recognized magics start with \<open>BIG\<close>.
\<close>

theorem load_magic_check:
  "(take 3 (take 4 d) \<noteq> BIG \<longrightarrow>
      load a (Some d) = (a\<lparr>original_data := Some d, header := Some (take 4 d)\<rparr>, Inl ValueError))
   \<and> (take 3 (take 4 d) = BIG \<longrightarrow>
        snd (load a (Some d)) \<noteq> Inl ValueError
        \<and> (\<forall>e. snd (load a (Some d)) = Inl e \<longrightarrow> e = StructError)
        \<and> (\<forall>fs cnt. read_uint32_le (take 4 (drop 4 d)) = Inr fs
                \<and> read_uint32_be (take 4 (drop 8 d)) = Inr cnt \<longrightarrow>
              (take 4 d = BIG5 \<longrightarrow>
                 load a (Some d) =
                   (case read_entries True d cnt 15
                           (a\<lparr>original_data := Some d, header := Some BIG5, file_size := fs\<rparr>) of
                      (a3, Inl e) \<Rightarrow> (a3, Inl e)
                    | (a3, Inr u) \<Rightarrow> (a3\<lparr>entries := map (load_data d) (entries a3)\<rparr>, Inr ())))
              \<and> (take 4 d \<noteq> BIG5 \<longrightarrow>
                 load a (Some d) =
                   (case read_entries False d cnt 16
                           (a\<lparr>original_data := Some d, header := Some (take 4 d), file_size := fs\<rparr>) of
                      (a3, Inl e) \<Rightarrow> (a3, Inl e)
                    | (a3, Inr u) \<Rightarrow> (a3\<lparr>entries := map (load_data d) (entries a3)\<rparr>, Inr ())))))
   \<and> (take 4 d \<in> {BIG4, BIGF, BIG5} \<longrightarrow> take 3 (take 4 d) = BIG)"
proof (intro conjI impI allI)
  assume "take 3 (take 4 d) \<noteq> BIG"
  then show "load a (Some d) = (a\<lparr>original_data := Some d, header := Some (take 4 d)\<rparr>, Inl ValueError)"
    by (rule load_bad_magic)
next
  assume "take 3 (take 4 d) = BIG"
  then show "snd (load a (Some d)) \<noteq> Inl ValueError"
    using load_error_after_magic [of d a ValueError] by auto
next
  fix e
  assume "take 3 (take 4 d) = BIG" and "snd (load a (Some d)) = Inl e"
  then show "e = StructError" by (rule load_error_after_magic)
next
  fix fs cnt
  assume m: "take 3 (take 4 d) = BIG"
    and r: "read_uint32_le (take 4 (drop 4 d)) = Inr fs \<and> read_uint32_be (take 4 (drop 8 d)) = Inr cnt"
    and b: "take 4 d = BIG5"
  from load_eq [OF m r [THEN conjunct1] r [THEN conjunct2], of a]
  show "load a (Some d) =
          (case read_entries True d cnt 15
                  (a\<lparr>original_data := Some d, header := Some BIG5, file_size := fs\<rparr>) of
             (a3, Inl e) \<Rightarrow> (a3, Inl e)
           | (a3, Inr u) \<Rightarrow> (a3\<lparr>entries := map (load_data d) (entries a3)\<rparr>, Inr ()))"
    by (simp only: b simp_thms if_True)
next
  fix fs cnt
  assume m: "take 3 (take 4 d) = BIG"
    and r: "read_uint32_le (take 4 (drop 4 d)) = Inr fs \<and> read_uint32_be (take 4 (drop 8 d)) = Inr cnt"
    and b: "take 4 d \<noteq> BIG5"
  from load_eq [OF m r [THEN conjunct1] r [THEN conjunct2], of a] b
  show "load a (Some d) =
          (case read_entries False d cnt 16
                  (a\<lparr>original_data := Some d, header := Some (take 4 d), file_size := fs\<rparr>) of
             (a3, Inl e) \<Rightarrow> (a3, Inl e)
           | (a3, Inr u) \<Rightarrow> (a3\<lparr>entries := map (load_data d) (entries a3)\<rparr>, Inr ()))"
    by (simp only: simp_thms if_False)
next
  assume "take 4 d \<in> {BIG4, BIGF, BIG5}"
  then consider "take 4 d = BIG4" | "take 4 d = BIGF" | "take 4 d = BIG5" by auto
  then show "take 3 (take 4 d) = BIG"
    by cases (simp_all only: BIG_def BIG4_def BIGF_def BIG5_def, simp_all)
qed

lemma read_entries_big5_archive:
  "read_entries True big5_archive 1 15
     (BIGArchive_init\<lparr>original_data := Some big5_archive, header := Some BIG5, file_size := 28\<rparr>)
   = (\<lparr>header = Some BIG5, file_size = 28,
        entries = [\<lparr>ident = 0, offset = 26, size_e = 2, path = ''a'', data = None, modified = False\<rparr>],
        original_data = Some big5_archive, next_ident = 1\<rparr>, Inr ())"
  by (simp add: read_record_def bio_read_def read_uint32_be_def bind_e_def read_string_def
      decode_ascii_ignore_def char_of_a BIGArchive_init_def big5_archive_def)

lemma read_entries_gap_archive:
  "read_entries False gap_archive 2 16
     (BIGArchive_init\<lparr>original_data := Some gap_archive, header := Some BIGF, file_size := 40\<rparr>)
   = (\<lparr>header = Some BIGF, file_size = 40,
        entries = [\<lparr>ident = 0, offset = 37, size_e = 1, path = ''a'', data = None, modified = False\<rparr>,
                   \<lparr>ident = 1, offset = 38, size_e = 2, path = ''b'', data = None, modified = False\<rparr>],
        original_data = Some gap_archive, next_ident = 2\<rparr>, Inr ())"
  by (simp add: read_record_def bio_read_def read_uint32_be_def bind_e_def read_string_def
      decode_ascii_ignore_def char_of_a BIGArchive_init_def gap_archive_def read_entries_numeral)

theorem load_magic_check_witness:
  "take 3 (take 4 zip_bytes) \<noteq> BIG
   \<and> load BIGArchive_init (Some zip_bytes)
       = (BIGArchive_init\<lparr>original_data := Some zip_bytes, header := Some (take 4 zip_bytes)\<rparr>,
          Inl ValueError)
   \<and> take 4 big5_archive = BIG5
   \<and> load BIGArchive_init (Some big5_archive)
       = (\<lparr>header = Some BIG5, file_size = 28,
           entries = [\<lparr>ident = 0, offset = 26, size_e = 2, path = ''a'', data = Some [1, 2],
                       modified = False\<rparr>],
           original_data = Some big5_archive, next_ident = 1\<rparr>, Inr ())
   \<and> take 4 gap_archive = BIGF
   \<and> load BIGArchive_init (Some gap_archive) = (gap_loaded, Inr ())"
proof -
  have z: "take 3 (take 4 zip_bytes) \<noteq> BIG" by (simp add: zip_bytes_def BIG_def)
  note t1 = load_magic_check [of zip_bytes BIGArchive_init, THEN conjunct1, rule_format, OF z]
  have m5: "take 3 (take 4 big5_archive) = BIG" and h5: "take 4 big5_archive = BIG5"
    and r5: "read_uint32_le (take 4 (drop 4 big5_archive)) = Inr 28
             \<and> read_uint32_be (take 4 (drop 8 big5_archive)) = Inr 1"
    by (simp_all add: big5_archive_def BIG_def BIG5_def read_uint32_le_def read_uint32_be_def)
  note t2 = load_magic_check [of big5_archive BIGArchive_init, THEN conjunct2, THEN conjunct1,
      rule_format, OF m5, THEN conjunct2, THEN conjunct2, rule_format, OF r5, THEN conjunct1,
      rule_format, OF h5]
  have l5: "load BIGArchive_init (Some big5_archive)
       = (\<lparr>header = Some BIG5, file_size = 28,
           entries = [\<lparr>ident = 0, offset = 26, size_e = 2, path = ''a'', data = Some [1, 2],
                       modified = False\<rparr>],
           original_data = Some big5_archive, next_ident = 1\<rparr>, Inr ())"
    unfolding t2 read_entries_big5_archive by (simp add: load_data_def big5_archive_def)
  have mg: "take 3 (take 4 gap_archive) = BIG" and hg: "take 4 gap_archive = BIGF"
    and ng: "take 4 gap_archive \<noteq> BIG5"
    and rg: "read_uint32_le (take 4 (drop 4 gap_archive)) = Inr 40
             \<and> read_uint32_be (take 4 (drop 8 gap_archive)) = Inr 2"
    by (simp_all add: gap_archive_def BIG_def BIGF_def BIG5_def read_uint32_le_def read_uint32_be_def)
  note t3 = load_magic_check [of gap_archive BIGArchive_init, THEN conjunct2, THEN conjunct1,
      rule_format, OF mg, THEN conjunct2, THEN conjunct2, rule_format, OF rg, THEN conjunct2,
      rule_format, OF ng]
  have lg: "load BIGArchive_init (Some gap_archive) = (gap_loaded, Inr ())"
    unfolding t3 hg read_entries_gap_archive by (simp add: load_data_def gap_archive_def gap_loaded_def)
  from z t1 h5 l5 hg lg show ?thesis by (intro conjI)
qed

subsection \<open>The invariant of the entry list\<close>

lemma archive_inv_entries_cong:
  "map ident (entries a') = map ident (entries a) \<Longrightarrow> next_ident a' = next_ident a \<Longrightarrow>
     archive_inv a' = archive_inv a"
proof -
  assume m: "map ident (entries a') = map ident (entries a)" and n: "next_ident a' = next_ident a"
  have "(\<forall>e \<in> set (entries a'). ident e < next_ident a')
          = (\<forall>i \<in> set (map ident (entries a')). i < next_ident a')" by simp
  also have "\<dots> = (\<forall>i \<in> set (map ident (entries a)). i < next_ident a)" by (simp only: m n)
  also have "\<dots> = (\<forall>e \<in> set (entries a). ident e < next_ident a)" by simp
  finally show ?thesis by (simp only: archive_inv_def m)
qed

lemma archive_inv_load:
  assumes "archive_inv a"
  shows "archive_inv (fst (load a f))"
proof (cases f)
  case None
  with assms show ?thesis by (simp add: load_def)
next
  case (Some d)
  let ?a1 = "a\<lparr>original_data := Some d, header := Some (take 4 d)\<rparr>"
  have i1: "archive_inv ?a1" using assms by (simp add: archive_inv_def)
  show ?thesis
  proof (cases "take 3 (take 4 d) = BIG")
    case False
    show ?thesis unfolding Some load_bad_magic [OF False] fst_conv by (rule i1)
  next
    case m: True
    show ?thesis
    proof (cases "read_uint32_le (take 4 (drop 4 d))")
      case (Inl e)
      show ?thesis unfolding Some load_le_fail [OF m Inl] fst_conv by (rule i1)
    next
      case fs: (Inr fs)
      have i2: "archive_inv (?a1\<lparr>file_size := fs\<rparr>)" using assms by (simp add: archive_inv_def)
      show ?thesis
      proof (cases "read_uint32_be (take 4 (drop 8 d))")
        case (Inl e)
        show ?thesis unfolding Some load_be_fail [OF m fs Inl] fst_conv by (rule i2)
      next
        case cnt: (Inr cnt)
        let ?r = "read_entries (take 4 d = BIG5) d cnt (if take 4 d = BIG5 then 15 else 16)
                    (?a1\<lparr>file_size := fs\<rparr>)"
        obtain a3 r where r: "?r = (a3, r)" by (cases ?r) auto
        from read_entries_inv [OF i2, of "take 4 d = BIG5" d cnt "if take 4 d = BIG5 then 15 else 16"] r
        have i3: "archive_inv a3" by simp
        have "archive_inv (a3\<lparr>entries := map (load_data d) (entries a3)\<rparr>) = archive_inv a3"
          by (rule archive_inv_entries_cong) (simp_all add: load_data_def)
        with i3 have i4: "archive_inv (a3\<lparr>entries := map (load_data d) (entries a3)\<rparr>)" by simp
        have "fst (load a (Some d)) = a3 \<or> fst (load a (Some d))
                = a3\<lparr>entries := map (load_data d) (entries a3)\<rparr>"
          unfolding load_eq [OF m fs cnt, of a] r by (cases r) simp_all
        with i3 i4 show ?thesis unfolding Some by auto
      qed
    qed
  qed
qed

lemma archive_inv_save:
  assumes "archive_inv a"
  shows "archive_inv (fst (save a writable))"
proof -
  obtain es tot where l: "layout a = (es, tot)" by (cases "layout a") auto
  then have "map ident es = map ident (entries a)"
    by (auto simp: layout_def Let_def dest: update_offsets_fields)
  then have "archive_inv (a\<lparr>entries := es\<rparr>) = archive_inv a"
    by (intro archive_inv_entries_cong) simp_all
  with assms l show ?thesis by (simp add: save_def Let_def)
qed

text \<open>Every archive that \<open>load\<close> leaves, starting from a fresh one, has the invariant.\<close>

lemma archive_inv_loaded: "archive_inv (fst (load BIGArchive_init f))"
  by (rule archive_inv_load [OF archive_inv_init])

section \<open>Properties of the config object parser\<close>

lemmas string_eval = py_isspace_def strip_def startswith_def split_on1_def split_ws_def
  split_ws1_def after_eq_def conditions_of_def

lemmas parser_eval = ini_text_def parse_ini_content_def parser_init_def parse_line_def
  is_object_definition_def object_keywords_def parse_object_definition_def open_object_def
  close_block_def definition_line_def section_headers_def open_section_def
  with_current_object_def with_current_section_def parse_property_def
  process_section_properties_def bind_e_def Let_def

text \<open>
  Claim C4 says that \<open>parse_ini_content\<close> returns for every input. It does not: inside
  a definition with no open section, a line that contains \<open>=\<close> and \<open>ModuleTag_\<close>
  and has nothing before the \<open>=\<close> makes the module branch index an empty token
  list, and the \<open>IndexError\<close> leaves \<open>parse_ini_content\<close>.
\<close>

theorem parse_ini_content_raises:
  "parse_ini_content (ini_text [''Object Tank'', ''= ModuleTag_01'', ''End'']) ''a.ini''
     = Inl IndexError"
  by (simp add: parser_eval string_eval)

text \<open>A second way out: a multi-valued key assigned with \<open>=\<close> and then repeated
  without it.\<close>

lemma parse_ini_content_raises_on_str_append:
  "parse_ini_content
     (ini_text [''Object Tank'', ''ShowSubObject = Turret'', ''ShowSubObject Barrel'', ''End''])
     ''a.ini'' = Inl AttributeError"
  by (simp add: parser_eval string_eval)

text \<open>
  Claim C6 says that a unit whose WeaponSet holds \<open>Weapon = PRIMARY CrusaderTankGun\<close>
  and \<open>Weapon = SECONDARY CrusaderTankGunFX\<close> gets a weapons list with the PRIMARY
  entry only. In \<open>parse_ini_content\<close> a line that starts with \<open>Weapon\<close> and a space is
  an object definition, tested before anything else: each of the two lines opens a
  definition (named \<open>PRIMARY\<close>, \<open>SECONDARY\<close>) and closes the section state, the
  WeaponSet of the unit is never post-processed and has no weapons list at all.
\<close>

theorem weapon_lines_open_definitions:
  "parse_ini_content crusader_ini ''AmericaVehicle.ini'' =
     Inr [(''Crusader'',
           \<lparr>d_type = ''Object'', d_name = ''Crusader'', source_file = ''AmericaVehicle.ini'',
            d_properties = [],
            d_sections = [(''WeaponSet'', \<lparr>s_type = ''WeaponSet'', s_tag = None, s_properties = []\<rparr>)],
            line_number = 0\<rparr>),
          (''PRIMARY'',
           \<lparr>d_type = ''Weapon'', d_name = ''PRIMARY'', source_file = ''AmericaVehicle.ini'',
            d_properties = [], d_sections = [], line_number = 3\<rparr>),
          (''SECONDARY'',
           \<lparr>d_type = ''Weapon'', d_name = ''SECONDARY'', source_file = ''AmericaVehicle.ini'',
            d_properties = [], d_sections = [], line_number = 4\<rparr>)]"
  by (simp add: crusader_ini_def parser_eval string_eval)

text \<open>The post-processing itself, given the buffered lines, does what the claim says:
  one entry per \<open>Weapon\<close> line, none for a weapon name that contains \<open>FX\<close>.\<close>

lemma weaponset_postprocessing_example:
  "process_section_properties weaponset_section
     [''Conditions = None'', ''Weapon = PRIMARY CrusaderTankGun'',
      ''Weapon = SECONDARY CrusaderTankGunFX'']
   = Inr (weaponset_section\<lparr>s_properties :=
            [(''weapons'', SList [EWeapon (''PRIMARY'', ''CrusaderTankGun'')]),
             (''conditions'', SStr ''None'')]\<rparr>)"
  by (simp add: process_section_properties_def weaponset_section_def string_eval Let_def)

lemma scan_weaponset_weapons:
  "fst (scan_weaponset props (ws, c)) = ws @ concat (map weapon_entry props)"
  by (induction props arbitrary: ws c) (auto simp: weapon_entry_def Let_def)

lemma scan_weaponset_no_FX:
  "(slot, w) \<in> set (fst (scan_weaponset props ([], c))) \<Longrightarrow> \<not> contains w ''FX''"
  by (auto simp: scan_weaponset_weapons weapon_entry_def split: if_splits)

text \<open>But no line of the form \<open>Weapon = ...\<close> (a space after \<open>Weapon\<close>) is ever
  buffered, whatever the state.\<close>

lemma weapon_line_is_object_definition:
  assumes "startswith (strip line) ''Weapon ''"
  shows "parse_line source n line st = Inr (open_object source n (strip line) st)"
    and "section_properties (open_object source n (strip line) st) = section_properties st"
proof -
  from assms have ne: "strip line \<noteq> []" by (auto simp: startswith_def)
  from assms have nc: "\<not> startswith (strip line) '';''"
    by (cases "strip line") (auto simp: startswith_def)
  from assms have od: "is_object_definition (strip line)"
    by (simp add: is_object_definition_def object_keywords_def)
  show "parse_line source n line st = Inr (open_object source n (strip line) st)"
    using ne nc od by (simp add: parse_line_def Let_def)
  show "section_properties (open_object source n (strip line) st) = section_properties st"
    by (simp add: open_object_def Let_def split: option.splits prod.splits)
qed

text \<open>
  Claim C9 says that repeated \<open>ShowSubObject\<close> or \<open>HideSubObject\<close> lines
  accumulate into a list in either written form. \<open>_parse_property\<close> has the list
  ("Some properties can have multiple values") only in its arm for lines without
  \<open>=\<close>; its arm for \<open>key = value\<close> assigns the value as a plain string for every
  key. Two \<open>ShowSubObject = ...\<close> lines leave the last value alone, as a string, not
  the list of both.
\<close>

theorem multi_valued_counterexample:
  "parse_ini_content
     (ini_text [''Object Tank'', ''ShowSubObject = Turret'', ''ShowSubObject = Barrel'', ''End''])
     ''a.ini''
   = Inr [(''Tank'',
           \<lparr>d_type = ''Object'', d_name = ''Tank'', source_file = ''a.ini'',
            d_properties = [(''ShowSubObject'', Str ''Barrel'')],
            d_sections = [], line_number = 0\<rparr>)]"
  by (simp add: parser_eval string_eval)

lemma multi_key_nospace:
  "key \<in> {''ShowSubObject'', ''HideSubObject''} \<Longrightarrow> \<forall>c \<in> set key. \<not> py_isspace c"
  by (auto simp: py_isspace_def)

lemma dropWhile_rev_last:
  "xs \<noteq> [] \<Longrightarrow> \<not> P (last xs) \<Longrightarrow> dropWhile P (rev xs @ ys) = rev xs @ ys"
  by (cases xs rule: rev_cases) auto

lemma multi_line_facts:
  assumes k: "key \<in> {''ShowSubObject'', ''HideSubObject''}" and v: "plain_value v"
  shows "strip (key @ '' '' @ v) = key @ '' '' @ v"
    and "CHR ''='' \<notin> set (key @ '' '' @ v)"
    and "split_ws1 (key @ '' '' @ v) = [key, v]"
    and "\<not> is_object_definition (key @ '' '' @ v)"
    and "\<not> startswith (key @ '' '' @ v) '';''"
    and "key @ '' '' @ v \<noteq> ''End''"
    and "key @ '' '' @ v \<notin> set section_headers"
proof -
  from v have vne: "v \<noteq> []" and veq: "CHR ''='' \<notin> set v"
    and vh: "\<not> py_isspace (hd v)" and vl: "\<not> py_isspace (last v)"
    by (simp_all add: plain_value_def)
  have sp: "py_isspace CHR '' ''" by (simp add: py_isspace_def)
  from k have "key \<noteq> []" by auto
  then obtain c cs where key: "key = c # cs" by (cases key) auto
  with multi_key_nospace [OF k] have c: "\<not> py_isspace c" by simp
  have d1: "dropWhile py_isspace (key @ '' '' @ v) = key @ '' '' @ v"
    using c by (simp add: key)
  have lst: "last (key @ '' '' @ v) = last v" using vne by simp
  have "dropWhile py_isspace (rev (key @ '' '' @ v)) = rev (key @ '' '' @ v)"
    using dropWhile_rev_last [of v py_isspace "'' '' @ rev key"] vne vl by simp
  then show "strip (key @ '' '' @ v) = key @ '' '' @ v"
    by (simp only: strip_def d1 rev_rev_ident)
  show "CHR ''='' \<notin> set (key @ '' '' @ v)"
    using k veq by auto
  have tw: "takeWhile (\<lambda>c. \<not> py_isspace c) (key @ '' '' @ v) = key"
    using multi_key_nospace [OF k] sp by (simp add: takeWhile_append2)
  have dw: "dropWhile (\<lambda>c. \<not> py_isspace c) (key @ '' '' @ v) = '' '' @ v"
    using multi_key_nospace [OF k] sp by (simp add: dropWhile_append2)
  have dv: "dropWhile py_isspace ('' '' @ v) = v"
    using sp vh vne by (cases v) simp_all
  show "split_ws1 (key @ '' '' @ v) = [key, v]"
    unfolding split_ws1_def Let_def d1 tw dw dv using vne by (simp add: key)
  show "\<not> is_object_definition (key @ '' '' @ v)"
    using k by (auto simp: is_object_definition_def object_keywords_def startswith_def)
  show "\<not> startswith (key @ '' '' @ v) '';''"
    using k by (auto simp: startswith_def)
  show "key @ '' '' @ v \<noteq> ''End''"
    using k by auto
  show "key @ '' '' @ v \<notin> set section_headers"
    using k by (auto simp: section_headers_def)
qed

lemma parse_property_multi:
  assumes k: "key \<in> {''ShowSubObject'', ''HideSubObject''}" and v: "plain_value v"
    and h: "multi_values obj key = Some old"
  shows "parse_property (key @ '' '' @ v) obj
           = Inr (obj\<lparr>d_properties := AList.update key (StrList (old @ [v])) (d_properties obj)\<rparr>)"
proof -
  note f = multi_line_facts [OF k v]
  from h have "map_of (d_properties obj) key = None \<and> old = []
      \<or> map_of (d_properties obj) key = Some (StrList old)"
    by (auto simp: multi_values_def split: option.splits propval.splits)
  then show ?thesis
    unfolding parse_property_def Let_def f(3)
    using f(2) k by (auto simp del: set_append)
qed

lemma parse_line_multi:
  assumes k: "key \<in> {''ShowSubObject'', ''HideSubObject''}" and v: "plain_value v"
    and co: "current_object st = Some nm" and ns: "\<not> in_section st"
    and ob: "map_of (objects st) nm = Some obj"
    and h: "multi_values obj key = Some old"
  shows "parse_line source n (key @ '' '' @ v) st
     = Inr (st\<lparr>objects := AList.update nm
              (obj\<lparr>d_properties := AList.update key (StrList (old @ [v])) (d_properties obj)\<rparr>)
              (objects st)\<rparr>)"
proof -
  note f = multi_line_facts [OF k v]
  from k have ne: "key @ '' '' @ v \<noteq> []" by auto
  have "parse_line source n (key @ '' '' @ v) st
          = with_current_object st (parse_property (key @ '' '' @ v))"
    unfolding parse_line_def Let_def f(1) definition_line_def
    using f(2,4,5,6,7) ne co ns by (simp del: set_append)
  also have "\<dots> = Inr (st\<lparr>objects := AList.update nm
              (obj\<lparr>d_properties := AList.update key (StrList (old @ [v])) (d_properties obj)\<rparr>)
              (objects st)\<rparr>)"
    unfolding with_current_object_def co ob option.case parse_property_multi [OF k v h]
    by (simp add: bind_e_def)
  finally show ?thesis .
qed

lemma multi_values_update:
  "multi_values (obj\<lparr>d_properties := AList.update key (StrList vs) (d_properties obj)\<rparr>) key = Some vs"
  by (simp add: multi_values_def update_conv')

lemma parse_lines_multi:
  assumes k: "key \<in> {''ShowSubObject'', ''HideSubObject''}" and vs: "list_all plain_value vs"
    and co: "current_object st = Some nm" and ns: "\<not> in_section st"
    and ob: "map_of (objects st) nm = Some obj"
    and h: "multi_values obj key = Some old"
  shows "\<exists>st' obj'. parse_lines source n (map (\<lambda>v. key @ '' '' @ v) vs) st = Inr st'
           \<and> current_object st' = Some nm \<and> \<not> in_section st'
           \<and> map_of (objects st') nm = Some obj'
           \<and> multi_values obj' key = Some (old @ vs)"
  using vs co ns ob h
proof (induction vs arbitrary: st obj old n)
  case Nil
  then show ?case by simp
next
  case (Cons v vs)
  from Cons.prems(1) have v: "plain_value v" and vs: "list_all plain_value vs" by simp_all
  let ?obj = "obj\<lparr>d_properties := AList.update key (StrList (old @ [v])) (d_properties obj)\<rparr>"
  let ?st = "st\<lparr>objects := AList.update nm ?obj (objects st)\<rparr>"
  have step: "parse_line source n (key @ '' '' @ v) st = Inr ?st"
    by (rule parse_line_multi [OF k v Cons.prems(2,3,4,5)])
  have "current_object ?st = Some nm" "\<not> in_section ?st" "map_of (objects ?st) nm = Some ?obj"
    "multi_values ?obj key = Some (old @ [v])"
    using Cons.prems(2,3) by (simp_all add: update_conv' multi_values_update)
  from Cons.IH [OF vs this, of "Suc n"] obtain st' obj' where
    "parse_lines source (Suc n) (map (\<lambda>v. key @ '' '' @ v) vs) ?st = Inr st'"
    "current_object st' = Some nm" "\<not> in_section st'" "map_of (objects st') nm = Some obj'"
    "multi_values obj' key = Some ((old @ [v]) @ vs)"
    by blast
  then show ?case
    by (simp only: list.map parse_lines.simps step bind_e_def sum.case) auto
qed

text \<open>
  The two arms of \<open>_parse_property\<close>. In a definition with no open section, repeated
  \<open>ShowSubObject\<close> or \<open>HideSubObject\<close> lines written \<open>key value\<close> (no \<open>=\<close>)
  accumulate: after the lines the property holds the list it held before (none when
  the key was absent) followed by every value in source order. A line written
  \<open>key = value\<close> stores the value as a plain string under the key, replacing what
  was held.
\<close>

lemma multi_valued_accumulation:
  assumes "key \<in> {''ShowSubObject'', ''HideSubObject''}" and "list_all plain_value vs"
    and "current_object st = Some nm" and "\<not> in_section st"
    and "map_of (objects st) nm = Some obj"
    and "multi_values obj key = Some old"
  shows "(\<exists>st' obj'. parse_lines source n (map (\<lambda>v. key @ '' '' @ v) vs) st = Inr st'
            \<and> map_of (objects st') nm = Some obj'
            \<and> multi_values obj' key = Some (old @ vs))
         \<and> (\<forall>line. CHR ''='' \<in> set line \<longrightarrow>
               (\<exists>obj'. parse_property line obj = Inr obj'
                  \<and> map_of (d_properties obj') (strip (takeWhile (\<lambda>c. c \<noteq> CHR ''='') line))
                       = Some (Str (after_eq line))))"
proof
  from parse_lines_multi [OF assms, of source n]
  show "\<exists>st' obj'. parse_lines source n (map (\<lambda>v. key @ '' '' @ v) vs) st = Inr st'
            \<and> map_of (objects st') nm = Some obj'
            \<and> multi_values obj' key = Some (old @ vs)"
    by blast
  show "\<forall>line. CHR ''='' \<in> set line \<longrightarrow>
               (\<exists>obj'. parse_property line obj = Inr obj'
                  \<and> map_of (d_properties obj') (strip (takeWhile (\<lambda>c. c \<noteq> CHR ''='') line))
                       = Some (Str (after_eq line)))"
    by (simp add: parse_property_def split_on1_def after_eq_def Let_def update_conv')
qed

lemma multi_valued_accumulation_example:
  "list_all plain_value [''Turret'', ''Barrel'']
   \<and> (\<exists>st' obj'. parse_lines ''a.ini'' 1 [''ShowSubObject Turret'', ''ShowSubObject Barrel''] tank_open
          = Inr st'
        \<and> map_of (objects st') ''Tank'' = Some obj'
        \<and> multi_values obj' ''ShowSubObject'' = Some [''Turret'', ''Barrel''])"
proof -
  have p: "list_all plain_value [''Turret'', ''Barrel'']"
    by (simp add: plain_value_def py_isspace_def)
  have "multi_values \<lparr>d_type = ''Object'', d_name = ''Tank'', source_file = ''a.ini'',
                              d_properties = [], d_sections = [], line_number = 0\<rparr> ''ShowSubObject'' = Some []"
    by (simp add: multi_values_def)
  from multi_valued_accumulation [of "''ShowSubObject''" "[''Turret'', ''Barrel'']" tank_open "''Tank''" _ "[]"
      "''a.ini''" 1, OF _ p _ _ _ this]
  show ?thesis using p by (simp add: tank_open_def)
qed

lemma parser_inv_init: "parser_inv parser_init"
  by (simp add: parser_inv_def parser_init_def)

lemma parser_inv_stack: "parser_inv st \<Longrightarrow> length (section_stack st) \<le> 1"
  by (auto simp: parser_inv_def split: option.splits if_splits)

lemma parser_inv_in_section:
  "parser_inv st \<Longrightarrow> in_section st \<Longrightarrow> current_object st \<noteq> None \<and> current_section st \<noteq> None"
  by (auto simp: parser_inv_def split: option.splits if_splits)

lemma open_object_inv: "parser_inv st \<Longrightarrow> parser_inv (open_object source n ls st)"
  by (auto simp: parser_inv_def open_object_def Let_def update_conv' split: option.splits if_splits)

lemma with_current_object_frame:
  assumes "with_current_object st f = Inr st'"
  shows "current_object st' = current_object st" "current_section st' = current_section st"
    "section_stack st' = section_stack st" "in_section st' = in_section st"
    "section_properties st' = section_properties st"
  using assms
  by (auto simp: with_current_object_def bind_e_def split: option.splits sum.splits)

lemma with_current_object_inv:
  assumes "with_current_object st f = Inr st'" "parser_inv st"
    and "\<And>obj obj' k. f obj = Inr obj' \<Longrightarrow> map_of (d_sections obj) k \<noteq> None
           \<Longrightarrow> map_of (d_sections obj') k \<noteq> None"
  shows "parser_inv st'"
  using assms
  by (auto simp: with_current_object_def bind_e_def parser_inv_def update_conv'
      split: option.splits sum.splits if_splits)

lemma with_current_section_frame:
  assumes "with_current_section st f = Inr st'"
  shows "current_object st' = current_object st" "current_section st' = current_section st"
    "section_stack st' = section_stack st" "in_section st' = in_section st"
    "section_properties st' = section_properties st"
  using assms with_current_object_frame
  by (auto simp: with_current_section_def split: option.splits)

lemma with_current_section_inv:
  assumes "with_current_section st f = Inr st'" "parser_inv st"
  shows "parser_inv st'"
proof (cases "current_section st")
  case None
  with assms show ?thesis by (simp add: with_current_section_def)
next
  case (Some k)
  with assms(1) have "with_current_object st (\<lambda>obj.
            case map_of (d_sections obj) k of
              None \<Rightarrow> Inr obj
            | Some sec \<Rightarrow>
                bind_e (f sec) (\<lambda>sec'.
                  Inr (obj\<lparr>d_sections := AList.update k sec' (d_sections obj)\<rparr>))) = Inr st'"
    by (simp add: with_current_section_def)
  then show ?thesis
    using assms(2)
    by (rule with_current_object_inv)
      (auto simp: bind_e_def update_conv' split: option.splits sum.splits)
qed

lemma close_block_inv:
  assumes "close_block st = Inr st'" "parser_inv st"
  shows "parser_inv st'"
    and "in_section st \<Longrightarrow> section_stack st' = [] \<and> \<not> in_section st' \<and> current_section st' = None"
proof -
  show "parser_inv st'"
  proof (cases "in_section st \<and> current_section st \<noteq> None")
    case False
    with assms show ?thesis
      by (auto simp: close_block_def parser_inv_def split: option.splits if_splits)
  next
    case True
    show ?thesis
    proof (cases "section_properties st = []")
      case e: True
      with True assms show ?thesis
        by (auto simp: close_block_def parser_inv_def bind_e_def Let_def
            split: option.splits if_splits)
    next
      case ne: False
      let ?f = "\<lambda>sec. process_section_properties
                    (sec\<lparr>s_properties :=
                           AList.update ''_raw'' (SList (map EStr (section_properties st)))
                             (s_properties sec)\<rparr>)
                    (section_properties st)"
      from assms(1) True ne obtain st1 where
        w: "with_current_section st ?f = Inr st1"
        by (auto simp: close_block_def bind_e_def split: sum.splits)
      note fr = with_current_section_frame [OF w]
      have inv1: "parser_inv st1" by (rule with_current_section_inv [OF w assms(2)])
      from assms(1) True ne w fr have
        "st' = (if section_stack st \<noteq> [] then
                  st1\<lparr>section_properties := [], section_stack := butlast (section_stack st),
                       current_section := (if butlast (section_stack st) \<noteq> []
                          then Some (last (butlast (section_stack st))) else None),
                       in_section := (butlast (section_stack st) \<noteq> [])\<rparr>
                else st1\<lparr>section_properties := [], in_section := False, current_section := None\<rparr>)"
        by (auto simp: close_block_def bind_e_def Let_def)
      with inv1 fr True show ?thesis
        by (auto simp: parser_inv_def split: option.splits if_splits)
    qed
  qed
  then show "in_section st \<Longrightarrow> section_stack st' = [] \<and> \<not> in_section st' \<and> current_section st' = None"
    using assms
    by (auto simp: close_block_def parser_inv_def bind_e_def Let_def
        split: option.splits if_splits sum.splits dest: with_current_section_frame)
qed

lemma open_section_inv:
  assumes "open_section key sec st = Inr st'" "parser_inv st" "current_object st \<noteq> None"
    "\<not> in_section st"
  shows "parser_inv st'" "section_stack st' = [key]" "in_section st'"
  using assms
  by (auto simp: open_section_def with_current_object_def bind_e_def parser_inv_def update_conv'
      split: option.splits if_splits)

lemma parse_property_sections:
  "parse_property line obj = Inr obj' \<Longrightarrow> d_sections obj' = d_sections obj"
  by (auto simp: parse_property_def Let_def split: if_splits option.splits propval.splits)

lemma definition_line_inv:
  assumes "definition_line ls st = Inr st'" "parser_inv st" "current_object st \<noteq> None"
    "\<not> in_section st"
  shows "parser_inv st'"
proof -
  consider (header) "ls \<in> set section_headers"
    | (modl) "ls \<notin> set section_headers" "CHR ''='' \<in> set ls \<and> contains ls ''ModuleTag_''"
    | (prp) "ls \<notin> set section_headers" "\<not> (CHR ''='' \<in> set ls \<and> contains ls ''ModuleTag_'')"
    by blast
  then show ?thesis
  proof cases
    case header
    with assms(1) have "open_section ls \<lparr>s_type = ls, s_tag = None, s_properties = []\<rparr> st = Inr st'"
      by (simp add: definition_line_def)
    then show ?thesis by (rule open_section_inv(1) [OF _ assms(2,3,4)])
  next
    case modl
    let ?t = "split_ws (strip (split_on CHR ''='' ls ! 0))"
    from modl assms(1) have "open_section (last ?t)
                \<lparr>s_type = hd ?t, s_tag = Some (last ?t), s_properties = []\<rparr> st = Inr st'"
      by (simp add: definition_line_def Let_def split: if_splits)
    then show ?thesis by (rule open_section_inv(1) [OF _ assms(2,3,4)])
  next
    case prp
    with assms(1) have "with_current_object st (parse_property ls) = Inr st'"
      by (simp add: definition_line_def)
    then show ?thesis
      using assms(2) by (rule with_current_object_inv) (simp add: parse_property_sections)
  qed
qed

lemma parse_line_inv:
  assumes "parse_line source n line st = Inr st'" "parser_inv st"
  shows "parser_inv st'"
proof -
  let ?ls = "strip line"
  consider (skip) "?ls = [] \<or> startswith ?ls '';''"
    | (obj) "\<not> (?ls = [] \<or> startswith ?ls '';'')" "is_object_definition ?ls"
    | (end_line) "\<not> (?ls = [] \<or> startswith ?ls '';'')" "\<not> is_object_definition ?ls" "?ls = ''End''"
    | (defn) "\<not> (?ls = [] \<or> startswith ?ls '';'')" "\<not> is_object_definition ?ls" "?ls \<noteq> ''End''"
        "current_object st \<noteq> None \<and> \<not> in_section st"
    | (other) "\<not> (?ls = [] \<or> startswith ?ls '';'')" "\<not> is_object_definition ?ls" "?ls \<noteq> ''End''"
        "\<not> (current_object st \<noteq> None \<and> \<not> in_section st)"
    by blast
  then show ?thesis
  proof cases
    case skip
    with assms show ?thesis by (simp add: parse_line_def Let_def)
  next
    case obj
    with assms(1) have "st' = open_object source n ?ls st" by (simp add: parse_line_def Let_def)
    with assms(2) show ?thesis by (simp add: open_object_inv)
  next
    case end_line
    with assms(1) have "close_block st = Inr st'" by (simp add: parse_line_def Let_def)
    then show ?thesis using assms(2) by (rule close_block_inv(1))
  next
    case defn
    with assms(1) have "definition_line ?ls st = Inr st'" by (simp add: parse_line_def Let_def)
    then show ?thesis using assms(2) defn(4) by (auto intro: definition_line_inv)
  next
    case other
    with assms(1) have "st' = st \<or> st' = st\<lparr>section_properties := section_properties st @ [?ls]\<rparr>"
      by (auto simp: parse_line_def Let_def split: if_splits)
    with assms(2) show ?thesis
      by (auto simp: parser_inv_def split: option.splits if_splits)
  qed
qed

lemma parse_lines_inv:
  "parse_lines source n ls st = Inr st' \<Longrightarrow> parser_inv st \<Longrightarrow> parser_inv st'"
proof (induction ls arbitrary: n st)
  case Nil
  then show ?case by simp
next
  case (Cons l ls)
  from Cons.prems(1) obtain st1 where
    1: "parse_line source n l st = Inr st1" and 2: "parse_lines source (Suc n) ls st1 = Inr st'"
    by (auto simp: bind_e_def split: sum.splits)
  from parse_line_inv [OF 1 Cons.prems(2)] Cons.IH [OF 2] show ?case by simp
qed

lemma header_not_special:
  assumes "ls \<in> set section_headers"
  shows "ls \<noteq> []" "\<not> startswith ls '';''" "\<not> is_object_definition ls" "ls \<noteq> ''End''"
  using assms
  by (auto simp: section_headers_def startswith_def is_object_definition_def object_keywords_def)

lemma buffered_in_section:
  assumes "parser_inv st" "in_section st"
    and "strip line \<in> set section_headers \<or> module_line (strip line)"
  shows "parse_line source n line st
           = Inr (st\<lparr>section_properties := section_properties st @ [strip line]\<rparr>)"
proof -
  from assms(3) have "strip line \<noteq> []" "\<not> startswith (strip line) '';''"
    "\<not> is_object_definition (strip line)" "strip line \<noteq> ''End''"
    using header_not_special [of "strip line"] by (auto simp: module_line_def)
  moreover from parser_inv_in_section [OF assms(1,2)]
  have "current_object st \<noteq> None" "current_section st \<noteq> None" by simp_all
  ultimately show ?thesis
    using assms(2) by (simp add: parse_line_def Let_def)
qed

lemma end_closes_section:
  assumes "parser_inv st" "in_section st" "strip line = ''End''"
    "parse_line source n line st = Inr st'"
  shows "section_stack st' = [] \<and> \<not> in_section st' \<and> current_section st' = None"
proof -
  from assms(3,4) have "close_block st = Inr st'"
    by (simp add: parse_line_def Let_def startswith_def is_object_definition_def
        object_keywords_def)
  from close_block_inv(2) [OF this assms(1,2)] show ?thesis .
qed

lemma module_line_opens_section:
  assumes "module_line (strip line)" "strip line \<notin> set section_headers"
    "current_object st \<noteq> None" "\<not> in_section st"
  shows "parse_line source n line st =
     (let tokens = split_ws (strip (split_on CHR ''='' (strip line) ! 0)) in
      if tokens = [] then Inl IndexError
      else open_section (last tokens)
             \<lparr>s_type = hd tokens, s_tag = Some (last tokens), s_properties = []\<rparr> st)"
proof -
  from assms(1) have "strip line \<noteq> ''End''" by (auto simp: module_line_def)
  with assms show ?thesis
    by (simp add: parse_line_def definition_line_def module_line_def Let_def)
qed

text \<open>
  Claim C10. In every state that a run of \<open>parse_ini_content\<close> reaches (the state
  after any number \<open>k\<close> of lines) the section stack holds at most one section. While
  a section is open, a typed section header or a module line does not open a second
  section: the stripped line is appended to the buffer of the open section and the
  stack stays as it is; and a line \<open>End\<close> empties the stack and leaves no section
  open.
\<close>

theorem section_nesting_at_most_one:
  "(parse_lines source 0 (take k (split_on (CHR 0x0A) content)) parser_init = Inr st
      \<longrightarrow> parser_inv st \<and> length (section_stack st) \<le> 1)
   \<and> (parser_inv st0 \<and> in_section st0
        \<and> (strip line \<in> set section_headers \<or> module_line (strip line))
      \<longrightarrow> parse_line source n line st0
            = Inr (st0\<lparr>section_properties := section_properties st0 @ [strip line]\<rparr>))
   \<and> (parser_inv st0 \<and> in_section st0 \<and> strip line = ''End''
        \<and> parse_line source n line st0 = Inr st1
      \<longrightarrow> section_stack st1 = [] \<and> \<not> in_section st1)"
  using parse_lines_inv [OF _ parser_inv_init] parser_inv_stack buffered_in_section
    end_closes_section
  by blast

theorem section_nesting_at_most_one_witness:
  "parse_lines ''a.ini'' 0
      (take 2 (split_on (CHR 0x0A)
         (ini_text [''Object T'', ''Draw = W3DTankDraw ModuleTag_01'', ''  WeaponSet'', ''End''])))
      parser_init = Inr draw_open
   \<and> parser_inv draw_open \<and> length (section_stack draw_open) \<le> 1 \<and> in_section draw_open
   \<and> strip ''  WeaponSet'' \<in> set section_headers
   \<and> parse_line ''a.ini'' 2 ''  WeaponSet'' draw_open
        = Inr (draw_open\<lparr>section_properties := [''WeaponSet'']\<rparr>)
   \<and> strip ''End'' = ''End''
   \<and> parse_line ''a.ini'' 3 ''End'' draw_open
        = Inr (draw_open\<lparr>section_stack := [], current_section := None, in_section := False\<rparr>)"
proof -
  have run: "parse_lines ''a.ini'' 0
      (take 2 (split_on (CHR 0x0A)
         (ini_text [''Object T'', ''Draw = W3DTankDraw ModuleTag_01'', ''  WeaponSet'', ''End''])))
      parser_init = Inr draw_open"
    by (simp add: parser_eval string_eval draw_open_def)
  have hd: "strip ''  WeaponSet'' \<in> set section_headers"
    by (simp add: section_headers_def string_eval)
  have en: "strip ''End'' = ''End''" by (simp add: string_eval)
  have cl: "parse_line ''a.ini'' 3 ''End'' draw_open
        = Inr (draw_open\<lparr>section_stack := [], current_section := None, in_section := False\<rparr>)"
    by (simp add: parser_eval string_eval draw_open_def)
  have ins: "in_section draw_open" by (simp add: draw_open_def)
  note t = section_nesting_at_most_one [of "''a.ini''" 2
      "ini_text [''Object T'', ''Draw = W3DTankDraw ModuleTag_01'', ''  WeaponSet'', ''End'']"
      draw_open draw_open "''  WeaponSet''" 2]
  from t run have inv: "parser_inv draw_open" "length (section_stack draw_open) \<le> 1" by blast+
  from t inv ins hd have "parse_line ''a.ini'' 2 ''  WeaponSet'' draw_open
        = Inr (draw_open\<lparr>section_properties := section_properties draw_open @ [strip ''  WeaponSet'']\<rparr>)"
    by blast
  then have bf: "parse_line ''a.ini'' 2 ''  WeaponSet'' draw_open
        = Inr (draw_open\<lparr>section_properties := [''WeaponSet'']\<rparr>)"
    by (simp add: draw_open_def string_eval)
  from run inv ins hd bf en cl show ?thesis by blast
qed

section \<open>Properties of the relationship graph builder\<close>

lemma has_dict_append: "has (dict_append d k x) k x"
  by (simp add: has_def dict_append_def update_conv')

lemma has_dict_append_mono: "has d k' y \<Longrightarrow> has (dict_append d k x) k' y"
  by (auto simp: has_def dict_append_def update_conv' split: option.splits)

lemma weapon_loop_has:
  "weapon_loop n ws (names0, wu0) = Inr (names, wu) \<Longrightarrow>
     (\<forall>k y. has wu0 k y \<longrightarrow> has wu k y)
     \<and> (\<forall>w \<in> set names. w \<in> set names0 \<or> has wu w n)
     \<and> set names0 \<subseteq> set names"
proof (induction n ws "(names0, wu0)" arbitrary: names0 wu0 rule: weapon_loop.induct)
  case (1 obj_name)
  then show ?case by simp
next
  case (2 obj_name s rest)
  then show ?case by simp
next
  case (3 obj_name slot weapon_name rest weapon_names wu')
  show ?case
  proof (cases "weapon_name = []")
    case True
    with 3 show ?thesis by simp
  next
    case False
    with "3.prems" have
      "weapon_loop obj_name rest (weapon_names @ [weapon_name], dict_append wu' weapon_name obj_name)
         = Inr (names, wu)" by simp
    from "3.hyps" [OF _ this] False
    have a: "\<forall>k y. has (dict_append wu' weapon_name obj_name) k y \<longrightarrow> has wu k y"
      and b: "\<forall>w \<in> set names. w \<in> set (weapon_names @ [weapon_name]) \<or> has wu w obj_name"
      and c: "set (weapon_names @ [weapon_name]) \<subseteq> set names"
      by simp_all
    from a have "\<forall>k y. has wu' k y \<longrightarrow> has wu k y"
      by (blast intro: has_dict_append_mono)
    moreover from a have "has wu weapon_name obj_name"
      by (blast intro: has_dict_append)
    with b have "\<forall>w \<in> set names. w \<in> set weapon_names \<or> has wu w obj_name" by auto
    moreover from c have "set weapon_names \<subseteq> set names" by simp
    ultimately show ?thesis by blast
  qed
qed

lemma enables_loop_has:
  "enables_loop n elems en0 = Inr en \<Longrightarrow>
     (\<forall>k y. has en0 k y \<longrightarrow> has en k y) \<and> (\<forall>p. EStr p \<in> set elems \<longrightarrow> has en p n)"
proof (induction n elems en0 rule: enables_loop.induct)
  case (1 obj_name en)
  then show ?case by simp
next
  case (2 obj_name prereq rest en0)
  from "2.prems" have "enables_loop obj_name rest (dict_append en0 prereq obj_name) = Inr en"
    by simp
  from "2.IH" [OF this]
  have a: "\<forall>k y. has (dict_append en0 prereq obj_name) k y \<longrightarrow> has en k y"
    and b: "\<forall>p. EStr p \<in> set rest \<longrightarrow> has en p obj_name" by simp_all
  from a have "\<forall>k y. has en0 k y \<longrightarrow> has en k y" by (blast intro: has_dict_append_mono)
  moreover from a have "has en prereq obj_name" by (blast intro: has_dict_append)
  ultimately show ?case using b by auto
next
  case (3 obj_name w rest en)
  then show ?case by simp
qed

lemma has_update_same: "has (AList.update k l d) k x \<longleftrightarrow> x \<in> set l"
  by (simp add: has_def update_conv')

lemma has_update_other: "k' \<noteq> k \<Longrightarrow> has (AList.update k l d) k' x \<longleftrightarrow> has d k' x"
  by (simp add: has_def update_conv')

lemma weapon_relationships_symmetric:
  assumes "weapon_relationships n obj r = Inr r'" "edges_symmetric r"
  shows "edges_symmetric r'"
proof (cases "map_of (d_sections obj) ''WeaponSet''")
  case None
  with assms show ?thesis by (simp add: weapon_relationships_def)
next
  case (Some weapon_set)
  with assms(1) obtain weapons names wu where
    lp: "weapon_loop n weapons ([], weapon_units r) = Inr (names, wu)"
    and r': "r' = (if names \<noteq> []
                 then r\<lparr>weapon_units := wu, unit_weapons := AList.update n names (unit_weapons r)\<rparr>
                 else r\<lparr>weapon_units := wu\<rparr>)"
    by (auto simp: weapon_relationships_def bind_e_def split: sum.splits prod.splits)
  from weapon_loop_has [OF lp]
  have mono: "\<forall>k y. has (weapon_units r) k y \<longrightarrow> has wu k y"
    and new: "\<forall>w \<in> set names. has wu w n" by auto
  from assms(2) have w: "\<forall>u w. has (unit_weapons r) u w \<longrightarrow> has (weapon_units r) w u"
    and p: "\<forall>ob v p. map_of (prerequisites r) ob = Some v \<and> EStr p \<in> set (elems_of v)
           \<longrightarrow> has (enables r) p ob"
    unfolding edges_symmetric_def by blast+
  have "\<forall>u w. has (unit_weapons r') u w \<longrightarrow> has (weapon_units r') w u"
  proof (intro allI impI)
    fix u w assume h: "has (unit_weapons r') u w"
    show "has (weapon_units r') w u"
    proof (cases "names \<noteq> [] \<and> u = n")
      case True
      with h r' have "w \<in> set names" by (simp add: has_update_same)
      with new True r' show ?thesis by simp
    next
      case False
      with h r' have "has (unit_weapons r) u w"
        by (auto simp: has_update_other split: if_splits)
      with w mono have "has wu w u" by blast
      with r' show ?thesis by simp
    qed
  qed
  moreover have "prerequisites r' = prerequisites r" "enables r' = enables r"
    using r' by simp_all
  ultimately show ?thesis using p unfolding edges_symmetric_def by simp
qed

lemma elems_of_iter: "py_iter v = Inr l \<Longrightarrow> elems_of v = l"
  by (simp add: elems_of_def)

lemma prerequisite_relationships_symmetric:
  assumes "prerequisite_relationships n obj r = Inr r'" "edges_symmetric r"
  shows "edges_symmetric r'"
proof (cases "map_of (d_sections obj) ''Prerequisites''")
  case None
  with assms show ?thesis by (simp add: prerequisite_relationships_def)
next
  case (Some sec)
  define prereqs where "prereqs = get_or_empty (s_properties sec) ''prerequisites''"
  show ?thesis
  proof (cases "truthy prereqs")
    case False
    with assms Some show ?thesis
      by (simp add: prerequisite_relationships_def prereqs_def Let_def)
  next
    case True
    with assms(1) Some obtain elems en where
      it: "py_iter prereqs = Inr elems" and lp: "enables_loop n elems (enables r) = Inr en"
      and r': "r' = r\<lparr>prerequisites := AList.update n prereqs (prerequisites r), enables := en\<rparr>"
      by (auto simp: prerequisite_relationships_def prereqs_def Let_def bind_e_def
          split: sum.splits)
    from enables_loop_has [OF lp]
    have mono: "\<forall>k y. has (enables r) k y \<longrightarrow> has en k y"
      and new: "\<forall>p. EStr p \<in> set elems \<longrightarrow> has en p n" by auto
    from assms(2) have w: "\<forall>u w. has (unit_weapons r) u w \<longrightarrow> has (weapon_units r) w u"
      and p: "\<forall>ob v p. map_of (prerequisites r) ob = Some v \<and> EStr p \<in> set (elems_of v)
           \<longrightarrow> has (enables r) p ob"
      unfolding edges_symmetric_def by blast+
    have "\<forall>ob v p. map_of (prerequisites r') ob = Some v \<and> EStr p \<in> set (elems_of v)
           \<longrightarrow> has (enables r') p ob"
    proof (intro allI impI, elim conjE)
      fix ob v q assume m: "map_of (prerequisites r') ob = Some v" and e: "EStr q \<in> set (elems_of v)"
      show "has (enables r') q ob"
      proof (cases "ob = n")
        case True
        with m r' have "v = prereqs" by (simp add: update_conv')
        with e elems_of_iter [OF it] new True r' show ?thesis by simp
      next
        case False
        with m r' have "map_of (prerequisites r) ob = Some v" by (simp add: update_conv')
        with p e mono r' show ?thesis by auto
      qed
    qed
    moreover have "unit_weapons r' = unit_weapons r" "weapon_units r' = weapon_units r"
      using r' by simp_all
    ultimately show ?thesis using w unfolding edges_symmetric_def by simp
  qed
qed

lemma edges_symmetric_cong:
  "unit_weapons r' = unit_weapons r \<Longrightarrow> weapon_units r' = weapon_units r \<Longrightarrow>
   prerequisites r' = prerequisites r \<Longrightarrow> enables r' = enables r \<Longrightarrow>
   edges_symmetric r' = edges_symmetric r"
  by (simp add: edges_symmetric_def)

lemma armor_relationships_frame:
  "unit_weapons (armor_relationships n obj r) = unit_weapons r"
  "weapon_units (armor_relationships n obj r) = weapon_units r"
  "prerequisites (armor_relationships n obj r) = prerequisites r"
  "enables (armor_relationships n obj r) = enables r"
  by (simp_all add: armor_relationships_def split: option.splits secval.splits list.splits)

lemma locomotor_relationships_frame:
  "unit_weapons (locomotor_relationships n obj r) = unit_weapons r"
  "weapon_units (locomotor_relationships n obj r) = weapon_units r"
  "prerequisites (locomotor_relationships n obj r) = prerequisites r"
  "enables (locomotor_relationships n obj r) = enables r"
  by (simp_all add: locomotor_relationships_def Let_def split: option.splits propval.splits)

lemma general_relationships_frame:
  "unit_weapons (general_relationships n obj r) = unit_weapons r"
  "weapon_units (general_relationships n obj r) = weapon_units r"
  "prerequisites (general_relationships n obj r) = prerequisites r"
  "enables (general_relationships n obj r) = enables r"
  by (simp_all add: general_relationships_def split: option.splits)

lemma upgrade_loop_frame:
  "upgrade_loop n secs r = Inr r' \<Longrightarrow>
     unit_weapons r' = unit_weapons r \<and> weapon_units r' = weapon_units r
     \<and> prerequisites r' = prerequisites r \<and> enables r' = enables r"
proof (induction n secs r rule: upgrade_loop.induct)
  case (1 obj_name r)
  then show ?case by simp
next
  case (2 obj_name section_name section_data rest r)
  then show ?case
    by (auto split: if_splits option.splits secval.splits)
qed

lemma build_object_symmetric:
  assumes "build_object n obj r = Inr r'" "edges_symmetric r"
  shows "edges_symmetric r'"
proof -
  from assms(1) obtain r1 r2 where
    1: "weapon_relationships n obj r = Inr r1"
    and 2: "prerequisite_relationships n obj
               (locomotor_relationships n obj (armor_relationships n obj r1)) = Inr r2"
    and 3: "upgrade_loop n (d_sections obj) (general_relationships n obj r2) = Inr r'"
    by (auto simp: build_object_def bind_e_def split: sum.splits)
  have s1: "edges_symmetric r1" by (rule weapon_relationships_symmetric [OF 1 assms(2)])
  have "edges_symmetric (locomotor_relationships n obj (armor_relationships n obj r1))
          = edges_symmetric r1"
    by (rule edges_symmetric_cong)
      (simp_all only: locomotor_relationships_frame armor_relationships_frame)
  with s1 have "edges_symmetric (locomotor_relationships n obj (armor_relationships n obj r1))"
    by simp
  then have s2: "edges_symmetric r2" by (rule prerequisite_relationships_symmetric [OF 2])
  have "edges_symmetric (general_relationships n obj r2) = edges_symmetric r2"
    by (rule edges_symmetric_cong) (simp_all only: general_relationships_frame)
  with s2 have s3: "edges_symmetric (general_relationships n obj r2)" by simp
  have "edges_symmetric r' = edges_symmetric (general_relationships n obj r2)"
    using upgrade_loop_frame [OF 3] by (intro edges_symmetric_cong) simp_all
  with s3 show ?thesis by simp
qed

lemma build_loop_symmetric:
  "build_loop objs r = Inr r' \<Longrightarrow> edges_symmetric r \<Longrightarrow> edges_symmetric r'"
proof (induction objs r rule: build_loop.induct)
  case (1 r)
  then show ?case by simp
next
  case (2 obj_name obj_data rest r)
  from "2.prems"(1) obtain r1 where
    a: "build_object obj_name obj_data r = Inr r1" and b: "build_loop rest r1 = Inr r'"
    by (auto simp: bind_e_def split: sum.splits)
  from build_object_symmetric [OF a "2.prems"(2)] "2.IH" [OF b] show ?case by simp
qed

text \<open>
  Claim C7. After \<open>_build_relationships\<close> has run on an aggregate definition map:
  for every unit \<open>u\<close> and every weapon \<open>w\<close> in \<open>unit_weapons[u]\<close>, the list
  \<open>weapon_units[w]\<close> contains \<open>u\<close>; and for every object \<open>ob\<close> and every
  prerequisite \<open>p\<close> in \<open>prerequisites[ob]\<close>, the list \<open>enables[p]\<close> contains \<open>ob\<close>.
\<close>

theorem relationship_symmetry:
  assumes "build_relationships all_objects = Inr r"
  shows "(\<forall>u ws w. map_of (unit_weapons r) u = Some ws \<and> w \<in> set ws
            \<longrightarrow> (\<exists>us. map_of (weapon_units r) w = Some us \<and> u \<in> set us))
       \<and> (\<forall>ob v p. map_of (prerequisites r) ob = Some v \<and> EStr p \<in> set (elems_of v)
            \<longrightarrow> (\<exists>obs. map_of (enables r) p = Some obs \<and> ob \<in> set obs))"
proof -
  have "edges_symmetric relationships_init"
    by (simp add: edges_symmetric_def relationships_init_def has_def)
  with assms have "edges_symmetric r"
    unfolding build_relationships_def by (rule build_loop_symmetric)
  then have w: "\<And>u w. has (unit_weapons r) u w \<Longrightarrow> has (weapon_units r) w u"
    and p: "\<And>ob v p. map_of (prerequisites r) ob = Some v \<Longrightarrow> EStr p \<in> set (elems_of v)
           \<Longrightarrow> has (enables r) p ob"
    unfolding edges_symmetric_def by blast+
  show ?thesis
  proof (intro conjI allI impI; elim conjE)
    fix u ws w assume "map_of (unit_weapons r) u = Some ws" "w \<in> set ws"
    then have "has (unit_weapons r) u w" by (simp add: has_def)
    from w [OF this] show "\<exists>us. map_of (weapon_units r) w = Some us \<and> u \<in> set us"
      by (cases "map_of (weapon_units r) w") (simp_all add: has_def)
  next
    fix ob v q assume "map_of (prerequisites r) ob = Some v" "EStr q \<in> set (elems_of v)"
    from p [OF this] show "\<exists>obs. map_of (enables r) q = Some obs \<and> ob \<in> set obs"
      by (cases "map_of (enables r) q") (simp_all add: has_def)
  qed
qed

lemma weapon_loop_total:
  "list_all is_weapon ws \<Longrightarrow> \<exists>res. weapon_loop n ws acc = Inr res"
proof (induction n ws acc rule: weapon_loop.induct)
  case (1 obj_name acc)
  then show ?case by simp
next
  case (2 obj_name s rest acc)
  then show ?case by simp
next
  case (3 obj_name slot weapon_name rest weapon_names wu)
  then show ?case by simp
qed

lemma weapon_relationships_total:
  "shapes_ok obj \<Longrightarrow> \<exists>r'. weapon_relationships n obj r = Inr r'"
proof (cases "map_of (d_sections obj) ''WeaponSet''")
  case None
  then show ?thesis by (simp add: weapon_relationships_def)
next
  case (Some weapon_set)
  assume "shapes_ok obj"
  with Some have sh: "case get_or_empty (s_properties weapon_set) ''weapons'' of
             SList l \<Rightarrow> list_all is_weapon l | SStr s \<Rightarrow> s = [] | SNone \<Rightarrow> False"
    by (simp add: shapes_ok_def)
  then obtain l where it: "py_iter (get_or_empty (s_properties weapon_set) ''weapons'') = Inr l"
    and l: "list_all is_weapon l"
    by (cases "get_or_empty (s_properties weapon_set) ''weapons''") auto
  from weapon_loop_total [OF l] obtain res where
    "weapon_loop n l ([], weapon_units r) = Inr res" by blast
  with Some it show ?thesis
    by (cases res) (simp add: weapon_relationships_def bind_e_def)
qed

lemma enables_loop_total:
  "list_all (\<lambda>x. \<not> is_weapon x) elems \<Longrightarrow> \<exists>en'. enables_loop n elems en = Inr en'"
  by (induction n elems en rule: enables_loop.induct) simp_all

lemma prerequisite_relationships_total:
  "shapes_ok obj \<Longrightarrow> \<exists>r'. prerequisite_relationships n obj r = Inr r'"
proof (cases "map_of (d_sections obj) ''Prerequisites''")
  case None
  then show ?thesis by (simp add: prerequisite_relationships_def)
next
  case (Some sec)
  assume "shapes_ok obj"
  with Some have sh: "case get_or_empty (s_properties sec) ''prerequisites'' of
               SList l \<Rightarrow> list_all (\<lambda>x. \<not> is_weapon x) l | _ \<Rightarrow> True"
    by (simp add: shapes_ok_def)
  show ?thesis
  proof (cases "truthy (get_or_empty (s_properties sec) ''prerequisites'')")
    case False
    with Some show ?thesis by (simp add: prerequisite_relationships_def Let_def)
  next
    case True
    with sh obtain l where it: "py_iter (get_or_empty (s_properties sec) ''prerequisites'') = Inr l"
      and l: "list_all (\<lambda>x. \<not> is_weapon x) l"
      by (cases "get_or_empty (s_properties sec) ''prerequisites''")
        (auto simp: list_all_iff)
    from enables_loop_total [OF l] obtain en' where "enables_loop n l (enables r) = Inr en'"
      by blast
    with Some True it show ?thesis
      by (simp add: prerequisite_relationships_def Let_def bind_e_def)
  qed
qed

lemma upgrade_loop_total:
  "list_all (\<lambda>(section_name, section_data).
           s_type section_data = ''ObjectCreationUpgrade'' \<longrightarrow>
             (case map_of (s_properties section_data) ''TriggeredBy'' of
                None \<Rightarrow> True | Some v \<Rightarrow> \<not> is_list v)) secs
   \<Longrightarrow> \<exists>r'. upgrade_loop n secs r = Inr r'"
proof (induction n secs r rule: upgrade_loop.induct)
  case (1 obj_name r)
  then show ?case by simp
next
  case (2 obj_name section_name section_data rest r)
  then show ?case
    by (auto split: option.splits secval.splits)
qed

lemma build_object_total:
  assumes "shapes_ok obj"
  shows "\<exists>r'. build_object n obj r = Inr r'"
proof -
  from weapon_relationships_total [OF assms] obtain r1 where
    1: "weapon_relationships n obj r = Inr r1" by blast
  from prerequisite_relationships_total [OF assms] obtain r2 where
    2: "prerequisite_relationships n obj
               (locomotor_relationships n obj (armor_relationships n obj r1)) = Inr r2" by blast
  from assms have "list_all (\<lambda>(section_name, section_data).
           s_type section_data = ''ObjectCreationUpgrade'' \<longrightarrow>
             (case map_of (s_properties section_data) ''TriggeredBy'' of
                None \<Rightarrow> True | Some v \<Rightarrow> \<not> is_list v)) (d_sections obj)"
    by (simp add: shapes_ok_def)
  from upgrade_loop_total [OF this] obtain r3 where
    "upgrade_loop n (d_sections obj) (general_relationships n obj r2) = Inr r3" by blast
  with 1 2 show ?thesis by (simp add: build_object_def bind_e_def)
qed

lemma build_loop_total:
  "list_all (\<lambda>(n, obj). shapes_ok obj) objs \<Longrightarrow> \<exists>r'. build_loop objs r = Inr r'"
proof (induction objs r rule: build_loop.induct)
  case (1 r)
  then show ?case by simp
next
  case (2 obj_name obj_data rest r)
  from "2.prems" have "shapes_ok obj_data" and rest: "list_all (\<lambda>(n, obj). shapes_ok obj) rest"
    by simp_all
  from build_object_total [OF this(1)] obtain r1 where
    a: "build_object obj_name obj_data r = Inr r1" by blast
  from "2.IH" [OF rest] obtain r' where "build_loop rest r1 = Inr r'" by blast
  with a show ?case by (simp add: bind_e_def)
qed

lemma weapon_loop_InrD:
  "weapon_loop n ws acc = Inr res \<Longrightarrow> list_all is_weapon ws"
  by (induction n ws acc rule: weapon_loop.induct) (simp_all split: if_splits)

lemma enables_loop_InrD:
  "enables_loop n elems en = Inr en' \<Longrightarrow> list_all (\<lambda>x. \<not> is_weapon x) elems"
  by (induction n elems en rule: enables_loop.induct) simp_all

lemma upgrade_loop_InrD:
  "upgrade_loop n secs r = Inr r' \<Longrightarrow>
     list_all (\<lambda>(section_name, section_data).
           s_type section_data = ''ObjectCreationUpgrade'' \<longrightarrow>
             (case map_of (s_properties section_data) ''TriggeredBy'' of
                None \<Rightarrow> True | Some v \<Rightarrow> \<not> is_list v)) secs"
proof (induction n secs r rule: upgrade_loop.induct)
  case (1 obj_name r)
  then show ?case by simp
next
  case (2 obj_name section_name section_data rest r)
  let ?P = "\<lambda>(section_name, section_data).
           s_type section_data = ''ObjectCreationUpgrade'' \<longrightarrow>
             (case map_of (s_properties section_data) ''TriggeredBy'' of
                None \<Rightarrow> True | Some v \<Rightarrow> \<not> is_list v)"
  show ?case
  proof (cases "s_type section_data = ''ObjectCreationUpgrade''")
    case False
    with "2.prems" have "upgrade_loop obj_name rest r = Inr r'" by simp
    with "2.IH" False show ?thesis by simp
  next
    case True
    show ?thesis
    proof (cases "map_of (s_properties section_data) ''TriggeredBy''")
      case None
      with True "2.prems" have "upgrade_loop obj_name rest r = Inr r'" by simp
      with "2.IH" True None show ?thesis by simp
    next
      case (Some v)
      show ?thesis
      proof (cases v)
        case SNone
        with True Some "2.prems" "2.IH" show ?thesis by simp
      next
        case (SStr x)
        with True Some "2.prems" "2.IH" show ?thesis by simp
      next
        case (SList l)
        with True Some "2.prems" show ?thesis by simp
      qed
    qed
  qed
qed

lemma bind_e_InrD: "bind_e m f = Inr y \<Longrightarrow> \<exists>x. m = Inr x \<and> f x = Inr y"
  by (cases m) (simp_all add: bind_e_def)

lemma weapon_relationships_InrD:
  assumes "weapon_relationships n obj r = Inr r'"
    and "map_of (d_sections obj) ''WeaponSet'' = Some weapon_set"
  shows "case get_or_empty (s_properties weapon_set) ''weapons'' of
             SList l \<Rightarrow> list_all is_weapon l | SStr s \<Rightarrow> s = [] | SNone \<Rightarrow> False"
proof -
  from assms obtain ws res where it: "py_iter (get_or_empty (s_properties weapon_set) ''weapons'') = Inr ws"
    and wl: "weapon_loop n ws ([], weapon_units r) = Inr res"
    by (auto simp: weapon_relationships_def dest!: bind_e_InrD)
  from weapon_loop_InrD [OF wl] have l: "list_all is_weapon ws" .
  show ?thesis
  proof (cases "get_or_empty (s_properties weapon_set) ''weapons''")
    case SNone
    with it show ?thesis by simp
  next
    case (SStr s)
    with it l show ?thesis by (cases s) auto
  next
    case (SList x)
    with it l show ?thesis by simp
  qed
qed

lemma prerequisite_relationships_InrD:
  assumes "prerequisite_relationships n obj r = Inr r'"
    and "map_of (d_sections obj) ''Prerequisites'' = Some sec"
  shows "case get_or_empty (s_properties sec) ''prerequisites'' of
               SList l \<Rightarrow> list_all (\<lambda>x. \<not> is_weapon x) l | _ \<Rightarrow> True"
proof (cases "get_or_empty (s_properties sec) ''prerequisites''")
  case SNone
  then show ?thesis by simp
next
  case (SStr s)
  then show ?thesis by simp
next
  case (SList l)
  show ?thesis
  proof (cases "l = []")
    case True
    with SList show ?thesis by simp
  next
    case False
    with assms SList obtain en where "enables_loop n l (enables r) = Inr en"
      by (auto simp: prerequisite_relationships_def Let_def dest!: bind_e_InrD)
    from enables_loop_InrD [OF this] SList show ?thesis by simp
  qed
qed

lemma build_object_InrD:
  assumes "build_object n obj r = Inr r'"
  shows "shapes_ok obj"
proof -
  from assms obtain r1 r2 where 1: "weapon_relationships n obj r = Inr r1"
    and 2: "prerequisite_relationships n obj
               (locomotor_relationships n obj (armor_relationships n obj r1)) = Inr r2"
    and 3: "upgrade_loop n (d_sections obj) (general_relationships n obj r2) = Inr r'"
    by (auto simp: build_object_def dest!: bind_e_InrD)
  show ?thesis
    unfolding shapes_ok_def
  proof (intro conjI)
    show "case map_of (d_sections obj) ''WeaponSet'' of
        None \<Rightarrow> True
      | Some weapon_set \<Rightarrow>
          (case get_or_empty (s_properties weapon_set) ''weapons'' of
             SList l \<Rightarrow> list_all is_weapon l | SStr s \<Rightarrow> s = [] | SNone \<Rightarrow> False)"
      using weapon_relationships_InrD [OF 1]
      by (cases "map_of (d_sections obj) ''WeaponSet''") simp_all
    show "case map_of (d_sections obj) ''Prerequisites'' of
          None \<Rightarrow> True
        | Some prereq_section \<Rightarrow>
            (case get_or_empty (s_properties prereq_section) ''prerequisites'' of
               SList l \<Rightarrow> list_all (\<lambda>x. \<not> is_weapon x) l | _ \<Rightarrow> True)"
      using prerequisite_relationships_InrD [OF 2]
      by (cases "map_of (d_sections obj) ''Prerequisites''") simp_all
    show "list_all (\<lambda>(section_name, section_data).
           s_type section_data = ''ObjectCreationUpgrade'' \<longrightarrow>
             (case map_of (s_properties section_data) ''TriggeredBy'' of
                None \<Rightarrow> True | Some v \<Rightarrow> \<not> is_list v))
         (d_sections obj)"
      by (rule upgrade_loop_InrD [OF 3])
  qed
qed

lemma build_loop_InrD:
  "build_loop objs r = Inr r' \<Longrightarrow> list_all (\<lambda>(n, obj). shapes_ok obj) objs"
proof (induction objs r rule: build_loop.induct)
  case (1 r)
  then show ?case by simp
next
  case (2 obj_name obj_data rest r)
  from "2.prems" obtain r1 where a: "build_object obj_name obj_data r = Inr r1"
    and b: "build_loop rest r1 = Inr r'"
    by (auto dest!: bind_e_InrD)
  from build_object_InrD [OF a] "2.IH" [OF b] show ?case by simp
qed

text \<open>
  Whether \<open>_build_relationships\<close> returns is a matter of the shapes of the sections
  alone, never of the names that the aggregate map defines or leaves undefined.
\<close>

lemma build_relationships_returns_iff:
  "(\<exists>r. build_relationships all_objects = Inr r) \<longleftrightarrow> all_shapes_ok all_objects"
  unfolding build_relationships_def all_shapes_ok_def
  using build_loop_total [of all_objects relationships_init] build_loop_InrD [of all_objects relationships_init]
  by blast















lemmas builder_eval = build_relationships_def build_object_def weapon_relationships_def
  armor_relationships_def locomotor_relationships_def prerequisite_relationships_def
  general_relationships_def extract_general_from_path_def relationships_init_def
  dict_append_def get_or_empty_def bind_e_def Let_def startswith_def

lemma parse_humvee_ini: "parse_ini_content humvee_ini ''a.ini'' = Inr [(''Humvee'', humvee)]"
  by (simp add: humvee_ini_def humvee_def humvee_weaponset_def parser_eval string_eval)

lemma build_humvee: "build_relationships [(''Humvee'', humvee)] = Inr humvee_rel"
  by (simp add: builder_eval humvee_def humvee_weaponset_def humvee_rel_def)

theorem relationship_symmetry_witness:
  "build_relationships [(''Humvee'', humvee)] = Inr humvee_rel
   \<and> map_of (unit_weapons humvee_rel) ''Humvee'' = Some [''HumveeGun'']
   \<and> (\<exists>us. map_of (weapon_units humvee_rel) ''HumveeGun'' = Some us \<and> ''Humvee'' \<in> set us)
   \<and> map_of (prerequisites humvee_rel) ''Humvee'' = Some (SList [EStr ''WarFactory''])
   \<and> (\<exists>obs. map_of (enables humvee_rel) ''WarFactory'' = Some obs \<and> ''Humvee'' \<in> set obs)"
proof -
  have a: "map_of (unit_weapons humvee_rel) ''Humvee'' = Some [''HumveeGun'']"
    and b: "map_of (prerequisites humvee_rel) ''Humvee'' = Some (SList [EStr ''WarFactory''])"
    and c: "EStr ''WarFactory'' \<in> set (elems_of (SList [EStr ''WarFactory'']))"
    by (simp_all add: humvee_rel_def elems_of_def)
  note t = relationship_symmetry [OF build_humvee]
  from t [THEN conjunct1, rule_format, of "''Humvee''" "[''HumveeGun'']" "''HumveeGun''"] a
  have d: "\<exists>us. map_of (weapon_units humvee_rel) ''HumveeGun'' = Some us \<and> ''Humvee'' \<in> set us"
    by simp
  from t [THEN conjunct2, rule_format, of "''Humvee''" "SList [EStr ''WarFactory'']" "''WarFactory''"]
    b c
  have e: "\<exists>obs. map_of (enables humvee_rel) ''WarFactory'' = Some obs \<and> ''Humvee'' \<in> set obs"
    by simp
  from build_humvee a d b e show ?thesis by (intro conjI)
qed

text \<open>
  The shapes are needed. In the map parsed from \<open>mistyped_ini\<close> the second
  definition has, under the key \<open>WeaponSet\<close>, a module section whose \<open>weapons\<close>
  property is a string: the builder iterates over its characters, calls \<open>.get\<close> on
  the first and raises \<open>AttributeError\<close>. The weapon that the first definition
  names plays no part in it.
\<close>

lemma build_relationships_raises:
  "parse_ini_content mistyped_ini ''a.ini'' = Inr mistyped_objects
   \<and> map_of mistyped_objects ''HumveeGun'' = None
   \<and> build_relationships mistyped_objects = Inl AttributeError"
  by (simp add: mistyped_ini_def mistyped_objects_def humvee_weaponset_def parser_eval
      string_eval builder_eval)


end
